theory Spec2Isabelle
  imports Main "HOL-Library.Word"
begin

section \<open>JavaScript strings and values\<close>

text \<open>
  A JavaScript string is a sequence of 16-bit code units. String literals of the source are
  written \<open>js ''...''\<close>.
\<close>

type_synonym code_unit = "16 word"
type_synonym jsstring = "code_unit list"

definition js :: "string \<Rightarrow> jsstring" where
  "js cs = map of_char cs"

text \<open>
  The values \<open>parse\<close> can be handed: \<open>undefined\<close>, \<open>null\<close>, booleans, numbers, primitive
  strings, String objects (\<open>new String(s)\<close>, which wrap a string) and other objects (known
  by an address; their contents play no role here).
\<close>

datatype jsvalue =
    JSUndefined
  | JSNull
  | JSBoolean bool
  | JSNumber int
  | JSString jsstring
  | JSStringObject jsstring
  | JSObject nat

text \<open>
  lodash's \<open>_.isString\<close>, a library function outside the repository's sources: as lodash
  documents it, it holds of a primitive string and of a String object, and of no other value.
\<close>

fun isString :: "jsvalue \<Rightarrow> bool" where
  "isString (JSString s) = True"
| "isString (JSStringObject s) = True"
| "isString v = False"

text \<open>
  The operator \<open>!\<close>: negation of ECMAScript's ToBoolean. Every object is true, a String
  object that wraps the empty string too.
\<close>

fun js_not :: "jsvalue \<Rightarrow> bool" where
  "js_not JSUndefined = True"
| "js_not JSNull = True"
| "js_not (JSBoolean b) = (\<not> b)"
| "js_not (JSNumber n) = (n = 0)"
| "js_not (JSString s) = (s = [])"
| "js_not (JSStringObject s) = False"
| "js_not (JSObject a) = False"

text \<open>\<open>String.prototype.charAt\<close>: the empty string outside the string.\<close>

definition charAt :: "jsstring \<Rightarrow> nat \<Rightarrow> jsstring" where
  "charAt s i = (if i < length s then [s ! i] else [])"

text \<open>
  \<open>String.prototype.substring\<close>: both indices are clamped to the string and swapped when
  the first is the larger one.
\<close>

definition substring :: "jsstring \<Rightarrow> int \<Rightarrow> int \<Rightarrow> jsstring" where
  "substring s start stop =
     (let len = int (length s);
          finalStart = min (max start 0) len;
          finalEnd = min (max stop 0) len;
          from = min finalStart finalEnd;
          to = max finalStart finalEnd
      in take (nat (to - from)) (drop (nat from) s))"

text \<open>
  \<open>String.prototype.trim\<close> removes WhiteSpace and LineTerminator code units from both
  ends.
\<close>

definition isWhiteSpace :: "code_unit \<Rightarrow> bool" where
  "isWhiteSpace c \<longleftrightarrow>
     c = 0x0009 \<or> c = 0x000A \<or> c = 0x000B \<or> c = 0x000C \<or> c = 0x000D \<or> c = 0x0020 \<or>
     c = 0x00A0 \<or> c = 0x1680 \<or> (0x2000 \<le> c \<and> c \<le> 0x200A) \<or> c = 0x2028 \<or>
     c = 0x2029 \<or> c = 0x202F \<or> c = 0x205F \<or> c = 0x3000 \<or> c = 0xFEFF"

definition trim :: "jsstring \<Rightarrow> jsstring" where
  "trim s = rev (dropWhile isWhiteSpace (rev (dropWhile isWhiteSpace s)))"

section \<open>Nodes and the parser's arrays\<close>

datatype node = MoronRelationExpressionNode (name: jsstring) (children: "node list")

text \<open>
  The parser builds its result by pushing onto arrays it holds references to: the array
  \<open>rootNodes\<close> of a \<open>_parse\<close> invocation, and the \<open>children\<close> array of a node that was
  pushed before. Every such array is reachable from \<open>rootNodes\<close> along exactly one chain
  of indices, and elements are only ever appended, so a reference is modelled as that chain:
  \<open>[]\<close> is \<open>rootNodes\<close> itself and \<open>i # p\<close> is the array \<open>p\<close> below
  \<open>rootNodes[i].children\<close>.
\<close>

type_synonym array_ref = "nat list"

fun array_at :: "node list \<Rightarrow> array_ref \<Rightarrow> node list" where
  "array_at ns [] = ns"
| "array_at ns (i # p) = (if i < length ns then array_at (children (ns ! i)) p else [])"

text \<open>\<open>nodes.push(node)\<close> on the array referenced by \<open>nodes\<close>.\<close>

fun push :: "array_ref \<Rightarrow> node \<Rightarrow> node list \<Rightarrow> node list" where
  "push [] n ns = ns @ [n]"
| "push (i # p) n ns =
     (if i < length ns
      then ns[i := MoronRelationExpressionNode (name (ns ! i)) (push p n (children (ns ! i)))]
      else ns)"

section \<open>The parser\<close>

text \<open>
  The source's private methods \<open>_parse\<close>, \<open>_forEachToken\<close>, ... are named \<open>priv_parse\<close>,
  \<open>priv_forEachToken\<close>, ... here. The field \<open>this.str\<close> of the parser object is set once,
  by \<open>parse\<close>, and is passed along as the first argument \<open>this_str\<close>.
\<close>

text \<open>
  Modelled from the spec: the class \<open>MoronValidationError\<close> lives in a file of its own that is
  not among the sources. It is the one kind of error this code raises and carries a message;
  the source constructs it from an object whose field \<open>relationExpression\<close> holds that message.
\<close>

datatype error = MoronValidationError (relationExpression: jsstring)

definition priv_throwInvalidExpressionError :: "jsstring \<Rightarrow> error + 'a" where
  "priv_throwInvalidExpressionError this_str =
     Inl (MoronValidationError (js ''invalid relation expression: '' @ this_str))"

definition isArrayToken :: "jsstring \<Rightarrow> bool" where
  "isArrayToken token \<longleftrightarrow>
     length token \<ge> 2 \<and> charAt token 0 = js ''['' \<and> charAt token (length token - 1) = js '']''"

definition stripArrayChars :: "jsstring \<Rightarrow> jsstring" where
  "stripArrayChars token = substring token 1 (int (length token) - 1)"

text \<open>
  The loop of \<open>_forEachToken\<close>. The callback may throw, which ends the scan; otherwise it
  returns the state it has updated. The loop returns the bracket depth it ends with.
\<close>

function forEachToken_loop ::
  "jsstring \<Rightarrow> jsstring \<Rightarrow> (jsstring \<Rightarrow> 's \<Rightarrow> error + 's) \<Rightarrow> nat \<Rightarrow> int \<Rightarrow> int \<Rightarrow> 's
     \<Rightarrow> error + (int \<times> 's)" where
  "forEachToken_loop str separator callback i bracketDepth previousMatchIndex st =
     (if i \<le> length str then
        (let c = (if i = length str then separator else charAt str i) in
         if c = js ''['' then
           forEachToken_loop str separator callback (i + 1) (bracketDepth + 1) previousMatchIndex st
         else if c = js '']'' then
           forEachToken_loop str separator callback (i + 1) (bracketDepth - 1) previousMatchIndex st
         else if c = separator \<and> bracketDepth = 0 then
           (case callback (trim (substring str (previousMatchIndex + 1) (int i))) st of
              Inl e \<Rightarrow> Inl e
            | Inr st' \<Rightarrow>
                forEachToken_loop str separator callback (i + 1) bracketDepth (int i) st')
         else
           forEachToken_loop str separator callback (i + 1) bracketDepth previousMatchIndex st)
      else Inr (bracketDepth, st))"
  by pat_completeness auto
termination
  by (relation "measure (\<lambda>(str, separator, callback, i, d, p, st). length str + 1 - i)") auto

declare forEachToken_loop.simps [simp del]

definition priv_forEachToken ::
  "jsstring \<Rightarrow> jsstring \<Rightarrow> jsstring \<Rightarrow> (jsstring \<Rightarrow> 's \<Rightarrow> error + 's) \<Rightarrow> 's \<Rightarrow> error + 's" where
  "priv_forEachToken this_str str separator callback st =
     (case forEachToken_loop str separator callback 0 0 (- 1) st of
        Inl e \<Rightarrow> Inl e
      | Inr (bracketDepth, st') \<Rightarrow>
          if bracketDepth \<noteq> 0 then priv_throwInvalidExpressionError this_str else Inr st')"

text \<open>
  Every token handed to the callback is a trimmed substring of the scanned string. This is
  what makes the parser's recursion through the callback well-founded.
\<close>

lemma length_substring_le: "length (substring s a b) \<le> length s"
proof -
  have "length (take n (drop k s)) \<le> length s" for n k
    by (simp add: min.coboundedI1)
  then show ?thesis by (simp only: substring_def Let_def)
qed

lemma length_trim_le: "length (trim s) \<le> length s"
proof -
  have "length (dropWhile isWhiteSpace (rev (dropWhile isWhiteSpace s))) \<le> length (rev (dropWhile isWhiteSpace s))"
    by (rule length_dropWhile_le)
  also have "\<dots> \<le> length s" by (simp add: length_dropWhile_le)
  finally show ?thesis by (simp add: trim_def)
qed

lemma length_token_le: "length (trim (substring s a b)) \<le> length s"
  using length_trim_le [of "substring s a b"] length_substring_le [of s a b] by linarith

lemma forEachToken_loop_cong:
  assumes "\<And>token st. length token \<le> length str \<Longrightarrow> callback token st = callback' token st"
  shows "forEachToken_loop str separator callback i d p st = forEachToken_loop str separator callback' i d p st"
  using assms
proof (induction str separator callback i d p st rule: forEachToken_loop.induct)
  case (1 str separator callback i bracketDepth previousMatchIndex st)
  have cb: "callback (trim (substring str a b)) s = callback' (trim (substring str a b)) s" for a b s
    using 1(5) length_token_le by blast
  note ih = 1(1-4)
  note pre = 1(5)
  define c where "c = (if i = length str then separator else charAt str i)"
  show ?case
  proof (cases "i \<le> length str")
    case False
    then show ?thesis by (simp add: forEachToken_loop.simps)
  next
    case True
    have L: "forEachToken_loop str separator callback i bracketDepth previousMatchIndex st =
      (if c = js ''['' then
           forEachToken_loop str separator callback (i + 1) (bracketDepth + 1) previousMatchIndex st
         else if c = js '']'' then
           forEachToken_loop str separator callback (i + 1) (bracketDepth - 1) previousMatchIndex st
         else if c = separator \<and> bracketDepth = 0 then
           (case callback (trim (substring str (previousMatchIndex + 1) (int i))) st of
              Inl e \<Rightarrow> Inl e
            | Inr st' \<Rightarrow>
                forEachToken_loop str separator callback (i + 1) bracketDepth (int i) st')
         else
           forEachToken_loop str separator callback (i + 1) bracketDepth previousMatchIndex st)" for callback :: "jsstring \<Rightarrow> 'a \<Rightarrow> error + 'a"
      using True by (subst forEachToken_loop.simps) (simp only: c_def Let_def if_True)
    show ?thesis
    proof (cases "c = js ''[''")
      case a: True
      have "forEachToken_loop str separator callback (i + 1) (bracketDepth + 1) previousMatchIndex st =
            forEachToken_loop str separator callback' (i + 1) (bracketDepth + 1) previousMatchIndex st"
        by (rule ih(1) [OF True c_def a]) (rule pre)
      then show ?thesis unfolding L using a by simp
    next
      case a: False
      show ?thesis
      proof (cases "c = js '']''")
        case b: True
        have "forEachToken_loop str separator callback (i + 1) (bracketDepth - 1) previousMatchIndex st =
              forEachToken_loop str separator callback' (i + 1) (bracketDepth - 1) previousMatchIndex st"
          by (rule ih(2) [OF True c_def a b]) (rule pre)
        then show ?thesis unfolding L using a b by simp
      next
        case b: False
        show ?thesis
        proof (cases "c = separator \<and> bracketDepth = 0")
          case d: True
          show ?thesis
          proof (cases "callback (trim (substring str (previousMatchIndex + 1) (int i))) st")
            case (Inl e)
            then show ?thesis unfolding L using a b d cb [of "previousMatchIndex + 1" "int i" st]
              by simp
          next
            case (Inr st')
            have "forEachToken_loop str separator callback (i + 1) bracketDepth (int i) st' =
                  forEachToken_loop str separator callback' (i + 1) bracketDepth (int i) st'"
              by (rule ih(3) [OF True c_def a b d Inr]) (rule pre)
            then show ?thesis unfolding L using Inr a b d cb [of "previousMatchIndex + 1" "int i" st]
              by simp
          qed
        next
          case d: False
          have "forEachToken_loop str separator callback (i + 1) bracketDepth previousMatchIndex st =
                forEachToken_loop str separator callback' (i + 1) bracketDepth previousMatchIndex st"
            by (rule ih(4) [OF True c_def a b d]) (rule pre)
          then show ?thesis unfolding L using a b d by auto
        qed
      qed
    qed
  qed
qed

lemma priv_forEachToken_cong [fundef_cong]:
  assumes "this_str = this_str'" "str = str'" "separator = separator'" "st = st'"
    and "\<And>token s. length token \<le> length str' \<Longrightarrow> callback token s = callback' token s"
  shows "priv_forEachToken this_str str separator callback st =
         priv_forEachToken this_str' str' separator' callback' st'"
  unfolding priv_forEachToken_def assms(1-4)
  by (simp only: forEachToken_loop_cong [of str' callback callback', OF assms(5)])

text \<open>
  The methods that build the forest. \<open>_parse\<close> owns the array \<open>rootNodes\<close> and the variable
  \<open>nodes\<close>, a reference that its callback reassigns; the model passes both through the scan
  as the pair \<open>(nodes, rootNodes)\<close>, which starts as the reference \<open>[]\<close> to the empty
  \<open>rootNodes\<close>. The methods called on the way take the reference \<open>nodes\<close> and the forest
  of the enclosing \<open>_parse\<close> and return the forest as they leave it, \<open>_parseToken\<close>,
  \<open>_parseIterator\<close> and \<open>_parseArrayToken\<close> together with the reference they return.
  \<open>_parseToken\<close> pushes a node with an empty \<open>children\<close> array and returns that array: the
  position it has just pushed to, below \<open>nodes\<close>. \<open>_parseArrayIterator\<close> parses its token
  into a forest of its own, \<open>rel\<close>, and pushes the elements of \<open>rel\<close> one by one.
\<close>

definition priv_parseToken ::
  "jsstring \<Rightarrow> jsstring \<Rightarrow> array_ref \<Rightarrow> node list \<Rightarrow> error + (array_ref \<times> node list)" where
  "priv_parseToken this_str token nodes rootNodes =
     (if length token = 0 then priv_throwInvalidExpressionError this_str
      else
        let node = MoronRelationExpressionNode token [];
            index = length (array_at rootNodes nodes)
        in Inr (nodes @ [index], push nodes node rootNodes))"

function priv_parse :: "jsstring \<Rightarrow> jsstring \<Rightarrow> error + node list"
  and priv_parseIterator ::
    "jsstring \<Rightarrow> jsstring \<Rightarrow> array_ref \<Rightarrow> node list \<Rightarrow> error + (array_ref \<times> node list)"
  and priv_parseArrayToken ::
    "jsstring \<Rightarrow> jsstring \<Rightarrow> array_ref \<Rightarrow> node list \<Rightarrow> error + (array_ref \<times> node list)"
  and priv_parseArrayIterator ::
    "jsstring \<Rightarrow> jsstring \<Rightarrow> array_ref \<Rightarrow> node list \<Rightarrow> error + node list"
where
  "priv_parse this_str str =
     (case priv_forEachToken this_str str (js ''.'')
             (\<lambda>token st. priv_parseIterator this_str token (fst st) (snd st)) ([], [])
      of Inl e \<Rightarrow> Inl e
       | Inr st \<Rightarrow> Inr (snd st))"
| "priv_parseIterator this_str token nodes rootNodes =
     (if isArrayToken token then priv_parseArrayToken this_str token nodes rootNodes
      else priv_parseToken this_str token nodes rootNodes)"
| "priv_parseArrayToken this_str arrayToken nodes rootNodes =
     (case priv_forEachToken this_str (stripArrayChars arrayToken) (js '','')
             (\<lambda>token rootNodes'. priv_parseArrayIterator this_str token nodes rootNodes') rootNodes
      of Inl e \<Rightarrow> Inl e
       | Inr rootNodes' \<Rightarrow> Inr (nodes, rootNodes'))"
| "priv_parseArrayIterator this_str token nodes rootNodes =
     (case priv_parse this_str token of
        Inl e \<Rightarrow> Inl e
      | Inr rel \<Rightarrow> Inr (fold (\<lambda>i rootNodes'. push nodes (rel ! i) rootNodes') [0..<length rel] rootNodes))"
  by pat_completeness auto

lemma length_stripArrayChars: "isArrayToken token \<Longrightarrow> length (stripArrayChars token) < length token"
  by (auto simp: isArrayToken_def stripArrayChars_def substring_def Let_def)

termination priv_parse
  apply (relation "measure (\<lambda>x. case x of
            Inl (Inl (this_str, str)) \<Rightarrow> 4 * length str + 3
          | Inl (Inr (this_str, token, nodes, rootNodes)) \<Rightarrow> 4 * length token + 2
          | Inr (Inl (this_str, arrayToken, nodes, rootNodes)) \<Rightarrow> 4 * length (stripArrayChars arrayToken) + 5
          | Inr (Inr (this_str, token, nodes, rootNodes)) \<Rightarrow> 4 * length token + 4)")
  apply (auto dest: length_stripArrayChars)
  done

text \<open>
  \<open>MoronRelationExpressionParser.prototype.parse\<close>; the constructor
  \<open>MoronRelationExpression(nodes)\<close> stores the array it is given. What \<open>_parse\<close> and the
  error message use of a value that passed \<open>_.isString\<close> is its text: \<open>length\<close>,
  \<open>charAt\<close>, \<open>substring\<close> and the concatenation with \<open>+\<close> read a String object as the
  string it wraps.
\<close>

datatype expression = MoronRelationExpression (nodes: "node list")

fun stringValue :: "jsvalue \<Rightarrow> jsstring" where
  "stringValue (JSString s) = s"
| "stringValue (JSStringObject s) = s"
| "stringValue v = []"

definition parse :: "jsvalue \<Rightarrow> error + expression" where
  "parse str =
     (if \<not> isString str \<or> js_not str then Inr (MoronRelationExpression [])
      else
        (case priv_parse (stringValue str) (stringValue str) of
           Inl e \<Rightarrow> Inl e
         | Inr rootNodes \<Rightarrow> Inr (MoronRelationExpression rootNodes)))"

declare priv_parse.simps [simp del] priv_parseIterator.simps [simp del]
  priv_parseArrayToken.simps [simp del] priv_parseArrayIterator.simps [simp del]

section \<open>The relation expression\<close>

text \<open>
  The query methods only read the node tree, so they are functions of the expression value.
  Each \<open>for\<close> loop is a recursive function of its index \<open>i\<close>.
\<close>

function isRecursive_loop :: "expression \<Rightarrow> jsstring \<Rightarrow> nat \<Rightarrow> bool" where
  "isRecursive_loop this relationName i =
     (if i < length (nodes this) then
        (let node = nodes this ! i in
         if name node = relationName then
           length (children node) = 1 \<and> name (children node ! 0) = js ''^''
         else isRecursive_loop this relationName (i + 1))
      else False)"
  by pat_completeness auto
termination
  by (relation "measure (\<lambda>(this, relationName, i). length (nodes this) - i)") auto

declare isRecursive_loop.simps [simp del]

definition isRecursive :: "expression \<Rightarrow> jsstring \<Rightarrow> bool" where
  "isRecursive this relationName = isRecursive_loop this relationName 0"

definition isAllRecursive :: "expression \<Rightarrow> bool" where
  "isAllRecursive this \<longleftrightarrow> length (nodes this) = 1 \<and> name (nodes this ! 0) = js ''*''"

function relation_loop :: "expression \<Rightarrow> jsstring \<Rightarrow> nat \<Rightarrow> expression option" where
  "relation_loop this relationName i =
     (if i < length (nodes this) then
        (let node = nodes this ! i in
         if name node \<noteq> relationName then relation_loop this relationName (i + 1)
         else if isRecursive this (name node) then Some (MoronRelationExpression [node])
         else Some (MoronRelationExpression (children node)))
      else None)"
  by pat_completeness auto
termination
  by (relation "measure (\<lambda>(this, relationName, i). length (nodes this) - i)") auto

declare relation_loop.simps [simp del]

definition relation :: "expression \<Rightarrow> jsstring \<Rightarrow> expression option" where
  "relation this relationName =
     (if isAllRecursive this then Some this else relation_loop this relationName 0)"

text \<open>
  The argument of \<open>isSubExpression\<close> is either an instance of \<open>MoronRelationExpression\<close>
  or some other value, which is parsed first (and parsing may throw). The method returns
  \<open>null\<close> of \<open>relation\<close> as \<open>None\<close>; handed on to the recursive call it is the
  value \<open>null\<close>.
\<close>

datatype argument = Instance expression | Other jsvalue

text \<open>The number of nodes of a tree, for the termination of \<open>isSubExpression\<close>.\<close>

fun weight :: "node \<Rightarrow> nat" where
  "weight (MoronRelationExpressionNode n cs) = Suc (sum_list (map weight cs))"

definition eweight :: "expression \<Rightarrow> nat" where
  "eweight e = sum_list (map weight (nodes e))"

lemma isRecursive_loop_find:
  "isRecursive_loop this n i =
     (case find (\<lambda>nd. name nd = n) (drop i (nodes this)) of
        None \<Rightarrow> False
      | Some nd \<Rightarrow> length (children nd) = 1 \<and> name (children nd ! 0) = js ''^'')"
proof (induction "length (nodes this) - i" arbitrary: i)
  case 0
  then show ?case by (simp add: isRecursive_loop.simps)
next
  case (Suc k)
  then have lt: "i < length (nodes this)" by simp
  have d: "drop i (nodes this) = nodes this ! i # drop (Suc i) (nodes this)"
    using lt by (simp add: Cons_nth_drop_Suc)
  have "k = length (nodes this) - Suc i" using Suc(2) by simp
  from Suc(1) [OF this] show ?case
    using lt by (subst isRecursive_loop.simps) (simp add: d Let_def)
qed

lemma relation_loop_find:
  "relation_loop this n i =
     (case find (\<lambda>nd. name nd = n) (drop i (nodes this)) of
        None \<Rightarrow> None
      | Some nd \<Rightarrow>
          Some (MoronRelationExpression (if isRecursive this n then [nd] else children nd)))"
proof (induction "length (nodes this) - i" arbitrary: i)
  case 0
  then show ?case by (simp add: relation_loop.simps)
next
  case (Suc k)
  then have lt: "i < length (nodes this)" by simp
  have d: "drop i (nodes this) = nodes this ! i # drop (Suc i) (nodes this)"
    using lt by (simp add: Cons_nth_drop_Suc)
  have "k = length (nodes this) - Suc i" using Suc(2) by simp
  from Suc(1) [OF this] show ?case
    using lt by (subst relation_loop.simps) (auto simp add: d Let_def)
qed

lemma find_weight_le:
  "find P ns = Some nd \<Longrightarrow> weight nd \<le> sum_list (map weight ns)"
  by (induction ns) (auto split: if_splits)

lemma children_weight_less: "sum_list (map weight (children nd)) < weight nd"
  by (cases nd) simp

lemma relation_weight_le:
  assumes "relation this n = Some own"
  shows "eweight own \<le> eweight this"
proof (cases "isAllRecursive this")
  case True
  then show ?thesis using assms by (simp add: relation_def)
next
  case False
  then obtain nd where f: "find (\<lambda>nd. name nd = n) (nodes this) = Some nd"
    and own: "own = MoronRelationExpression (if isRecursive this n then [nd] else children nd)"
    using assms by (auto simp: relation_def relation_loop_find split: option.splits)
  from find_weight_le [OF f] children_weight_less [of nd] show ?thesis
    by (simp add: own eweight_def)
qed

lemma relation_weight_less:
  assumes "relation this n = Some own" "\<not> isAllRecursive this" "\<not> isRecursive this n"
  shows "eweight own < eweight this"
proof -
  obtain nd where f: "find (\<lambda>nd. name nd = n) (nodes this) = Some nd"
    and own: "own = MoronRelationExpression (children nd)"
    using assms by (auto simp: relation_def relation_loop_find split: option.splits)
  from find_weight_le [OF f] children_weight_less [of nd] show ?thesis
    by (simp add: own eweight_def)
qed

lemma eweight_pos: "i < length (nodes e) \<Longrightarrow> 0 < eweight e"
  by (cases e; cases "nodes e"; cases "hd (nodes e)") (auto simp: eweight_def)

function isSubExpression :: "expression \<Rightarrow> argument \<Rightarrow> error + bool"
  and isSubExpression_loop :: "expression \<Rightarrow> expression \<Rightarrow> nat \<Rightarrow> error + bool"
where
  "isSubExpression this expr =
     (case (case expr of Instance e \<Rightarrow> Inr e | Other v \<Rightarrow> parse v) of
        Inl err \<Rightarrow> Inl err
      | Inr expr' \<Rightarrow>
          if isAllRecursive expr' then Inr (isAllRecursive this)
          else isSubExpression_loop this expr' 0)"
| "isSubExpression_loop this expr i =
     (if i < length (nodes expr) then
        (let relationName = name (nodes expr ! i) in
         if isRecursive expr relationName \<and> (isAllRecursive this \<or> isRecursive this relationName)
         then Inr True
         else
           (let subExpression = relation expr relationName;
                ownSubExpression = relation this relationName
            in case ownSubExpression of
                 None \<Rightarrow> Inr False
               | Some own \<Rightarrow>
                   (case isSubExpression own
                           (case subExpression of None \<Rightarrow> Other JSNull | Some sub \<Rightarrow> Instance sub)
                    of Inl err \<Rightarrow> Inl err
                     | Inr isSub \<Rightarrow>
                         if \<not> isSub then Inr False
                         else isSubExpression_loop this expr (i + 1))))
      else Inr True)"
  by pat_completeness auto

definition sub_measure :: "expression \<times> argument + expression \<times> expression \<times> nat \<Rightarrow> nat \<times> nat" where
  "sub_measure x =
     (case x of
        Inl (this, expr) \<Rightarrow>
          (case (case expr of Instance e \<Rightarrow> Inr e | Other v \<Rightarrow> parse v) of
             Inl err \<Rightarrow> (0, 0)
           | Inr e \<Rightarrow>
               (if isAllRecursive e then 0 else eweight this + eweight e + 1, length (nodes e) + 1))
      | Inr (this, expr, i) \<Rightarrow> (eweight this + eweight expr + 1, length (nodes expr) - i))"

lemma parse_null: "parse JSNull = Inr (MoronRelationExpression [])"
  by (simp add: parse_def)

lemma sub_measure_call:
  assumes i: "i < length (nodes expr)"
    and nrec: "\<not> (isRecursive expr n \<and> (isAllRecursive this \<or> isRecursive this n))"
    and own: "relation this n = Some own"
  shows "(sub_measure (Inl (own, case relation expr n of None \<Rightarrow> Other JSNull | Some sub \<Rightarrow> Instance sub)),
          sub_measure (Inr (this, expr, i))) \<in> less_than <*lex*> less_than"
proof (cases "relation expr n")
  case None
  have "eweight own \<le> eweight this" by (rule relation_weight_le [OF own])
  moreover have "0 < eweight expr" by (rule eweight_pos [OF i])
  ultimately show ?thesis
    using None by (simp add: sub_measure_def parse_null eweight_def)
next
  case (Some sub)
  show ?thesis
  proof (cases "isAllRecursive sub")
    case True
    then show ?thesis using Some by (simp add: sub_measure_def)
  next
    case False
    have nall: "\<not> isAllRecursive expr"
      using Some False by (auto simp: relation_def split: if_splits)
    have le1: "eweight own \<le> eweight this" by (rule relation_weight_le [OF own])
    have le2: "eweight sub \<le> eweight expr" by (rule relation_weight_le [OF Some])
    have "eweight own + eweight sub < eweight this + eweight expr"
    proof (cases "isRecursive expr n")
      case True
      with nrec have "\<not> isAllRecursive this" "\<not> isRecursive this n" by auto
      from relation_weight_less [OF own this] le2 show ?thesis by linarith
    next
      case False
      from relation_weight_less [OF Some nall False] le1 show ?thesis by linarith
    qed
    then show ?thesis using Some False by (simp add: sub_measure_def)
  qed
qed

termination isSubExpression
  apply (relation "inv_image (less_than <*lex*> less_than) sub_measure")
     apply (intro wf_inv_image wf_lex_prod wf_less_than)
    apply (auto simp: sub_measure_def split: argument.splits)[1]
  defer
   apply (auto simp: sub_measure_def)[1]
  apply (simp only: in_inv_image)
  apply (rule sub_measure_call)
    apply simp_all
  done

declare isSubExpression.simps [simp del] isSubExpression_loop.simps [simp del]

section \<open>Auxiliary notions for the parser\<close>

text \<open>The character the loop of \<open>_forEachToken\<close> looks at in iteration \<open>i\<close>.\<close>

definition scanned :: "jsstring \<Rightarrow> jsstring \<Rightarrow> nat \<Rightarrow> jsstring" where
  "scanned str separator i = (if i = length str then separator else charAt str i)"

text \<open>
  The tokens a scan hands to its callback and the depth it ends with, read off the loop
  itself by running it with a callback that records its argument. \<open>run_callback\<close> is
  the effect of calling a callback on a list of tokens in order, up to the first throw.
\<close>

definition tokens_from :: "jsstring \<Rightarrow> jsstring \<Rightarrow> nat \<Rightarrow> int \<Rightarrow> int \<Rightarrow> int \<times> jsstring list" where
  "tokens_from str separator i d p =
     (case forEachToken_loop str separator (\<lambda>token acc. Inr (acc @ [token])) i d p [] of
        Inl e \<Rightarrow> (0, [])
      | Inr r \<Rightarrow> r)"

definition tokensOf :: "jsstring \<Rightarrow> jsstring \<Rightarrow> jsstring list" where
  "tokensOf str separator = snd (tokens_from str separator 0 0 (- 1))"

definition finalDepth :: "jsstring \<Rightarrow> jsstring \<Rightarrow> int" where
  "finalDepth str separator = fst (tokens_from str separator 0 0 (- 1))"

fun run_callback :: "(jsstring \<Rightarrow> 's \<Rightarrow> error + 's) \<Rightarrow> jsstring list \<Rightarrow> 's \<Rightarrow> error + 's" where
  "run_callback cb [] st = Inr st"
| "run_callback cb (t # ts) st =
     (case cb t st of Inl e \<Rightarrow> Inl e | Inr st' \<Rightarrow> run_callback cb ts st')"

text \<open>An array reference denotes an array of the forest: every index on the way exists.\<close>

fun valid_ref :: "node list \<Rightarrow> array_ref \<Rightarrow> bool" where
  "valid_ref ns [] = True"
| "valid_ref ns (i # p) = (i < length ns \<and> valid_ref (children (ns ! i)) p)"

text \<open>
  The number of \<open>[\<close> of a string minus the number of its \<open>]\<close>: the bracket depth a scan
  of the whole string ends with.
\<close>

definition bracketExcess :: "jsstring \<Rightarrow> int" where
  "bracketExcess str =
     int (length (filter (\<lambda>c. [c] = js ''['') str)) - int (length (filter (\<lambda>c. [c] = js '']'') str))"

text \<open>
  Balanced brackets in the usual sense of the word, as C6 uses it: reading from the left,
  no \<open>]\<close> comes without an open \<open>[\<close> before it, and no \<open>[\<close> is left open at the end.
\<close>

fun balanced_from :: "nat \<Rightarrow> jsstring \<Rightarrow> bool" where
  "balanced_from d [] = (d = 0)"
| "balanced_from d (c # cs) =
     (if [c] = js ''['' then balanced_from (Suc d) cs
      else if [c] = js '']'' then (case d of 0 \<Rightarrow> False | Suc d' \<Rightarrow> balanced_from d' cs)
      else balanced_from d cs)"

definition balanced_brackets :: "jsstring \<Rightarrow> bool" where
  "balanced_brackets s = balanced_from 0 s"

text \<open>
  One pass of the loop of \<open>isSubExpression\<close> ends the scan with \<open>false\<close> when the
  recursive match does not apply and the receiver has no relation of that name, or its
  relation does not contain the argument's.
\<close>

definition iteration_returns_false :: "expression \<Rightarrow> expression \<Rightarrow> nat \<Rightarrow> bool" where
  "iteration_returns_false this expr i \<longleftrightarrow>
     (let relationName = name (nodes expr ! i) in
      \<not> (isRecursive expr relationName \<and> (isAllRecursive this \<or> isRecursive this relationName)) \<and>
      (case relation this relationName of
         None \<Rightarrow> True
       | Some own \<Rightarrow>
           isSubExpression own
             (case relation expr relationName of None \<Rightarrow> Other JSNull | Some sub \<Rightarrow> Instance sub)
           = Inr False))"

section \<open>The splitter as a list of tokens\<close>

lemma loop_done:
  "\<not> i \<le> length str \<Longrightarrow> forEachToken_loop str sep cb i d p st = Inr (d, st)"
  by (subst forEachToken_loop.simps) simp

lemma loop_open:
  "i \<le> length str \<Longrightarrow> scanned str sep i = js ''['' \<Longrightarrow>
   forEachToken_loop str sep cb i d p st = forEachToken_loop str sep cb (i + 1) (d + 1) p st"
  by (subst forEachToken_loop.simps) (simp add: scanned_def Let_def)

lemma loop_close:
  "i \<le> length str \<Longrightarrow> scanned str sep i \<noteq> js ''['' \<Longrightarrow> scanned str sep i = js '']'' \<Longrightarrow>
   forEachToken_loop str sep cb i d p st = forEachToken_loop str sep cb (i + 1) (d - 1) p st"
  by (subst forEachToken_loop.simps) (simp add: scanned_def Let_def)

lemma loop_split:
  "i \<le> length str \<Longrightarrow> scanned str sep i \<noteq> js ''['' \<Longrightarrow> scanned str sep i \<noteq> js '']'' \<Longrightarrow>
   scanned str sep i = sep \<Longrightarrow>
   forEachToken_loop str sep cb i 0 p st =
     (case cb (trim (substring str (p + 1) (int i))) st of
        Inl e \<Rightarrow> Inl e
      | Inr st' \<Rightarrow> forEachToken_loop str sep cb (i + 1) 0 (int i) st')"
  by (subst forEachToken_loop.simps) (simp add: scanned_def Let_def)

lemma loop_skip:
  "i \<le> length str \<Longrightarrow> scanned str sep i \<noteq> js ''['' \<Longrightarrow> scanned str sep i \<noteq> js '']'' \<Longrightarrow>
   \<not> (scanned str sep i = sep \<and> d = 0) \<Longrightarrow>
   forEachToken_loop str sep cb i d p st = forEachToken_loop str sep cb (i + 1) d p st"
  by (subst forEachToken_loop.simps) (auto simp add: scanned_def Let_def)

lemma loop_induct [case_names at_end at_open at_close at_sep at_other]:
  assumes "\<And>i d p. \<not> i \<le> length str \<Longrightarrow> P i d p"
    and "\<And>i d p. i \<le> length str \<Longrightarrow> scanned str sep i = js ''['' \<Longrightarrow> P (i + 1) (d + 1) p \<Longrightarrow> P i d p"
    and "\<And>i d p. i \<le> length str \<Longrightarrow> scanned str sep i \<noteq> js ''['' \<Longrightarrow>
           scanned str sep i = js '']'' \<Longrightarrow> P (i + 1) (d - 1) p \<Longrightarrow> P i d p"
    and "\<And>i p. i \<le> length str \<Longrightarrow> scanned str sep i \<noteq> js ''['' \<Longrightarrow>
           scanned str sep i \<noteq> js '']'' \<Longrightarrow> scanned str sep i = sep \<Longrightarrow>
           P (i + 1) 0 (int i) \<Longrightarrow> P i 0 p"
    and "\<And>i d p. i \<le> length str \<Longrightarrow> scanned str sep i \<noteq> js ''['' \<Longrightarrow>
           scanned str sep i \<noteq> js '']'' \<Longrightarrow> \<not> (scanned str sep i = sep \<and> d = 0) \<Longrightarrow>
           P (i + 1) d p \<Longrightarrow> P i d p"
  shows "P i d p"
proof (induction "length str + 1 - i" arbitrary: i d p)
  case 0
  then show ?case using assms(1) by simp
next
  case (Suc k)
  then have le: "i \<le> length str" and k: "k = length str + 1 - (i + 1)" by simp_all
  note ih = Suc(1) [OF k]
  consider (a) "scanned str sep i = js ''[''"
    | (b) "scanned str sep i \<noteq> js ''[''" "scanned str sep i = js '']''"
    | (c) "scanned str sep i \<noteq> js ''[''" "scanned str sep i \<noteq> js '']''"
          "scanned str sep i = sep" "d = 0"
    | (d) "scanned str sep i \<noteq> js ''[''" "scanned str sep i \<noteq> js '']''"
          "\<not> (scanned str sep i = sep \<and> d = 0)"
    by blast
  then show ?case
  proof cases
    case a
    then show ?thesis using assms(2) [OF le] ih by blast
  next
    case b
    then show ?thesis using assms(3) [OF le] ih by blast
  next
    case c
    then show ?thesis using assms(4) [OF le] ih by blast
  next
    case d
    then show ?thesis using assms(5) [OF le] ih by blast
  qed
qed

lemma recording_loop:
  "\<forall>acc. \<exists>d' ts.
     forEachToken_loop str sep (\<lambda>token acc. Inr (acc @ [token])) i d p acc = Inr (d', acc @ ts) \<and>
     forEachToken_loop str sep (\<lambda>token acc. Inr (acc @ [token])) i d p [] = Inr (d', ts)"
proof (induction i d p rule: loop_induct [where str = str and sep = sep])
  case (at_end i d p)
  then show ?case by (simp add: loop_done)
next
  case (at_open i d p)
  then show ?case by (simp add: loop_open)
next
  case (at_close i d p)
  then show ?case by (simp add: loop_close)
next
  case (at_sep i p)
  show ?case
  proof
    fix acc
    from at_sep(5) obtain d' ts where
      a: "forEachToken_loop str sep (\<lambda>token acc. Inr (acc @ [token])) (i + 1) 0 (int i)
            (acc @ [trim (substring str (p + 1) (int i))])
          = Inr (d', (acc @ [trim (substring str (p + 1) (int i))]) @ ts)"
      and b: "forEachToken_loop str sep (\<lambda>token acc. Inr (acc @ [token])) (i + 1) 0 (int i) []
          = Inr (d', ts)" by blast
    from at_sep(5) b obtain
      c: "forEachToken_loop str sep (\<lambda>token acc. Inr (acc @ [token])) (i + 1) 0 (int i)
            [trim (substring str (p + 1) (int i))]
          = Inr (d', [trim (substring str (p + 1) (int i))] @ ts)"
      by (metis Inr_inject prod.inject)
    show "\<exists>d' ts.
     forEachToken_loop str sep (\<lambda>token acc. Inr (acc @ [token])) i 0 p acc = Inr (d', acc @ ts) \<and>
     forEachToken_loop str sep (\<lambda>token acc. Inr (acc @ [token])) i 0 p [] = Inr (d', ts)"
      using a c by (simp add: loop_split [OF at_sep(1-4)])
  qed
next
  case (at_other i d p)
  then show ?case by (simp add: loop_skip)
qed

lemma tokens_from_done: "\<not> i \<le> length str \<Longrightarrow> tokens_from str sep i d p = (d, [])"
  by (simp add: tokens_from_def loop_done)

lemma tokens_from_open:
  "i \<le> length str \<Longrightarrow> scanned str sep i = js ''['' \<Longrightarrow>
   tokens_from str sep i d p = tokens_from str sep (i + 1) (d + 1) p"
  by (simp add: tokens_from_def loop_open)

lemma tokens_from_close:
  "i \<le> length str \<Longrightarrow> scanned str sep i \<noteq> js ''['' \<Longrightarrow> scanned str sep i = js '']'' \<Longrightarrow>
   tokens_from str sep i d p = tokens_from str sep (i + 1) (d - 1) p"
  by (simp add: tokens_from_def loop_close)

lemma tokens_from_skip:
  "i \<le> length str \<Longrightarrow> scanned str sep i \<noteq> js ''['' \<Longrightarrow> scanned str sep i \<noteq> js '']'' \<Longrightarrow>
   \<not> (scanned str sep i = sep \<and> d = 0) \<Longrightarrow>
   tokens_from str sep i d p = tokens_from str sep (i + 1) d p"
  by (simp add: tokens_from_def loop_skip)

lemma tokens_from_split:
  assumes "i \<le> length str" "scanned str sep i \<noteq> js ''[''" "scanned str sep i \<noteq> js '']''"
    "scanned str sep i = sep"
  shows "tokens_from str sep i 0 p =
     (fst (tokens_from str sep (i + 1) 0 (int i)),
      trim (substring str (p + 1) (int i)) # snd (tokens_from str sep (i + 1) 0 (int i)))"
proof -
  from recording_loop [of str sep "i + 1" 0 "int i"] obtain d' ts where
    a: "forEachToken_loop str sep (\<lambda>token acc. Inr (acc @ [token])) (i + 1) 0 (int i)
            [trim (substring str (p + 1) (int i))]
          = Inr (d', [trim (substring str (p + 1) (int i))] @ ts)"
    and b: "forEachToken_loop str sep (\<lambda>token acc. Inr (acc @ [token])) (i + 1) 0 (int i) []
          = Inr (d', ts)" by blast
  show ?thesis
    using a b by (simp add: tokens_from_def loop_split [OF assms])
qed

lemma loop_as_run:
  "\<forall>st. forEachToken_loop str sep cb i d p st =
     (case run_callback cb (snd (tokens_from str sep i d p)) st of
        Inl e \<Rightarrow> Inl e
      | Inr st' \<Rightarrow> Inr (fst (tokens_from str sep i d p), st'))"
proof (induction i d p rule: loop_induct [where str = str and sep = sep])
  case (at_end i d p)
  then show ?case by (simp add: loop_done tokens_from_done)
next
  case (at_open i d p)
  show ?case
    unfolding tokens_from_open [OF at_open(1,2)] loop_open [OF at_open(1,2)] by (rule at_open(3))
next
  case (at_close i d p)
  show ?case
    unfolding tokens_from_close [OF at_close(1-3)] loop_close [OF at_close(1-3)]
    by (rule at_close(4))
next
  case (at_sep i p)
  show ?case
    unfolding tokens_from_split [OF at_sep(1-4)] loop_split [OF at_sep(1-4)]
    using at_sep(5) by (simp split: sum.splits)
next
  case (at_other i d p)
  show ?case
    unfolding tokens_from_skip [OF at_other(1-4)] loop_skip [OF at_other(1-4)]
    by (rule at_other(5))
qed

lemma priv_forEachToken_as_run:
  "priv_forEachToken this_str str sep cb st =
     (case run_callback cb (tokensOf str sep) st of
        Inl e \<Rightarrow> Inl e
      | Inr st' \<Rightarrow>
          if finalDepth str sep \<noteq> 0 then priv_throwInvalidExpressionError this_str else Inr st')"
  by (simp add: priv_forEachToken_def loop_as_run tokensOf_def finalDepth_def split: sum.splits)

lemma tokens_from_length:
  "\<forall>t \<in> set (snd (tokens_from str sep i d p)). length t \<le> length str"
proof (induction i d p rule: loop_induct [where str = str and sep = sep])
  case (at_end i d p)
  then show ?case by (simp add: tokens_from_done)
next
  case (at_open i d p)
  then show ?case by (simp add: tokens_from_open)
next
  case (at_close i d p)
  then show ?case by (simp add: tokens_from_close)
next
  case (at_sep i p)
  then show ?case by (simp add: tokens_from_split [OF at_sep(1-4)] length_token_le)
next
  case (at_other i d p)
  then show ?case by (simp add: tokens_from_skip)
qed

lemma tokensOf_length: "t \<in> set (tokensOf str sep) \<Longrightarrow> length t \<le> length str"
  using tokens_from_length [of str sep 0 0 "- 1"] by (simp add: tokensOf_def)

lemma tokens_from_nonempty:
  "sep \<noteq> js ''['' \<Longrightarrow> sep \<noteq> js '']'' \<Longrightarrow> i \<le> length str \<Longrightarrow>
   fst (tokens_from str sep i d p) = 0 \<Longrightarrow> snd (tokens_from str sep i d p) \<noteq> []"
proof (induction i d p rule: loop_induct [where str = str and sep = sep])
  case (at_end i d p)
  then show ?case by simp
next
  case (at_open i d p)
  then have "i \<noteq> length str" by (auto simp: scanned_def)
  with at_open show ?case by (simp add: tokens_from_open)
next
  case (at_close i d p)
  then have "i \<noteq> length str" by (auto simp: scanned_def)
  with at_close show ?case by (simp add: tokens_from_close)
next
  case (at_sep i p)
  then show ?case by (simp add: tokens_from_split [OF at_sep(1-4)])
next
  case (at_other i d p)
  show ?case
  proof (cases "i = length str")
    case True
    then have "d \<noteq> 0" using at_other(4) by (simp add: scanned_def)
    moreover have "tokens_from str sep i d p = (d, [])"
      using at_other(1-4) True by (simp add: tokens_from_skip tokens_from_done)
    ultimately show ?thesis using at_other(9) by simp
  next
    case False
    with at_other show ?thesis by (simp add: tokens_from_skip)
  qed
qed

lemma tokensOf_nonempty:
  "sep \<noteq> js ''['' \<Longrightarrow> sep \<noteq> js '']'' \<Longrightarrow> finalDepth str sep = 0 \<Longrightarrow> tokensOf str sep \<noteq> []"
  using tokens_from_nonempty [of sep 0 str 0 "- 1"] by (simp add: tokensOf_def finalDepth_def)

text \<open>
  The condition under which parsing throws, stated on the strings alone. A string handed to
  \<open>_parse\<close> is invalid when its brackets do not add up to zero, or one of its tokens for the
  separator \<open>.\<close> is an empty plain token, or is an array token whose stripped content is
  invalid: its brackets do not add up to zero, or one of its tokens for the separator \<open>,\<close>
  is in turn an invalid string for \<open>_parse\<close>.
\<close>

function invalid_chain :: "jsstring \<Rightarrow> bool" and invalid_array :: "jsstring \<Rightarrow> bool" where
  "invalid_chain str \<longleftrightarrow>
     bracketExcess str \<noteq> 0 \<or>
     list_ex (\<lambda>token. if isArrayToken token then invalid_array (stripArrayChars token)
                      else token = [])
       (tokensOf str (js ''.''))"
| "invalid_array str \<longleftrightarrow>
     bracketExcess str \<noteq> 0 \<or> list_ex invalid_chain (tokensOf str (js '',''))"
  by pat_completeness auto
termination invalid_chain
proof (relation "measure (\<lambda>x. case x of Inl s \<Rightarrow> 2 * length s | Inr s \<Rightarrow> 2 * length s + 1)",
    goal_cases)
  case 1
  show ?case by simp
next
  case (2 str token)
  then show ?case
    using tokensOf_length [of token str "js ''.''"] length_stripArrayChars [of token] by simp
next
  case (3 str token)
  then show ?case using tokensOf_length [of token str "js '',''"] by simp
qed

declare invalid_chain.simps [simp del] invalid_array.simps [simp del]

section \<open>Notation for examples\<close>

abbreviation nd :: "string \<Rightarrow> node list \<Rightarrow> node" where
  "nd s cs \<equiv> MoronRelationExpressionNode (js s) cs"

abbreviation parse_string :: "string \<Rightarrow> error + expression" where
  "parse_string s \<equiv> parse (JSString (js s))"

lemmas parse_eval = parse_def priv_parse.simps priv_parseIterator.simps priv_parseArrayToken.simps
  priv_parseArrayIterator.simps priv_parseToken_def priv_forEachToken_def forEachToken_loop.simps
  isArrayToken_def stripArrayChars_def substring_def trim_def isWhiteSpace_def charAt_def js_def
  priv_throwInvalidExpressionError_def Let_def

lemmas query_eval = isRecursive_def isRecursive_loop.simps isAllRecursive_def relation_def
  relation_loop.simps isSubExpression.simps isSubExpression_loop.simps js_def Let_def

section \<open>The query methods\<close>

text \<open>
  C2: \<open>relation\<close> returns the expression itself when it is all-recursive; otherwise it takes
  the first root node named \<open>n\<close> and returns a new expression holding that node alone when
  the expression is recursive at \<open>n\<close>, and the node's children when it is not; it returns
  \<open>null\<close> (here \<open>None\<close>, which is not an expression without nodes) exactly when
  the expression is not all-recursive and no root node is named \<open>n\<close>.
\<close>

theorem relation_descends:
  "relation E n =
     (if isAllRecursive E then Some E
      else case find (\<lambda>x. name x = n) (nodes E) of
             None \<Rightarrow> None
           | Some x \<Rightarrow>
               Some (MoronRelationExpression (if isRecursive E n then [x] else children x)))
   \<and> (relation E n = None \<longleftrightarrow> \<not> isAllRecursive E \<and> n \<notin> name ` set (nodes E))"
proof -
  have eq: "relation E n =
     (if isAllRecursive E then Some E
      else case find (\<lambda>x. name x = n) (nodes E) of
             None \<Rightarrow> None
           | Some x \<Rightarrow>
               Some (MoronRelationExpression (if isRecursive E n then [x] else children x)))"
    by (simp add: relation_def relation_loop_find)
  have "find (\<lambda>x. name x = n) (nodes E) = None \<longleftrightarrow> n \<notin> name ` set (nodes E)"
    by (auto simp: find_None_iff)
  then have "relation E n = None \<longleftrightarrow> \<not> isAllRecursive E \<and> n \<notin> name ` set (nodes E)"
    unfolding eq by (auto split: option.splits)
  with eq show ?thesis by blast
qed

theorem relation_descends_witness:
  "relation (MoronRelationExpression [nd ''a'' [nd ''b'' [nd ''c'' []], nd ''d'' []]]) (js ''a'')
     = Some (MoronRelationExpression [nd ''b'' [nd ''c'' []], nd ''d'' []])
   \<and> relation (MoronRelationExpression [nd ''a'' [nd ''^'' []]]) (js ''a'')
     = Some (MoronRelationExpression [nd ''a'' [nd ''^'' []]])
   \<and> relation (MoronRelationExpression [nd ''a'' []]) (js ''a'') = Some (MoronRelationExpression [])
   \<and> relation (MoronRelationExpression [nd ''a'' []]) (js ''b'') = None
   \<and> relation (MoronRelationExpression [nd ''*'' []]) (js ''b'')
     = Some (MoronRelationExpression [nd ''*'' []])"
  using relation_descends [of "MoronRelationExpression [nd ''a'' [nd ''b'' [nd ''c'' []], nd ''d'' []]]" "js ''a''"]
    relation_descends [of "MoronRelationExpression [nd ''a'' [nd ''^'' []]]" "js ''a''"]
    relation_descends [of "MoronRelationExpression [nd ''a'' []]" "js ''a''"]
    relation_descends [of "MoronRelationExpression [nd ''a'' []]" "js ''b''"]
    relation_descends [of "MoronRelationExpression [nd ''*'' []]" "js ''b''"]
  by (simp add: isAllRecursive_def isRecursive_def isRecursive_loop.simps js_def)

text \<open>
  C3, as the claim states it, fails: \<open>isRecursive\<close> decides at the first root node named
  \<open>n\<close>. The expression parsed from \<open>[a.b,a.^]\<close> has a root node named \<open>a\<close> whose only
  child is \<open>^\<close>, yet it is not recursive at \<open>a\<close>, because an earlier root node named
  \<open>a\<close> has the child \<open>b\<close>.
\<close>

theorem isRecursive_some_node_counterexample:
  "parse_string ''[a.b,a.^]''
     = Inr (MoronRelationExpression [nd ''a'' [nd ''b'' []], nd ''a'' [nd ''^'' []]])
   \<and> name (nodes (MoronRelationExpression [nd ''a'' [nd ''b'' []], nd ''a'' [nd ''^'' []]]) ! 1)
       = js ''a''
   \<and> children (nodes (MoronRelationExpression [nd ''a'' [nd ''b'' []], nd ''a'' [nd ''^'' []]]) ! 1)
       = [nd ''^'' []]
   \<and> \<not> isRecursive (MoronRelationExpression [nd ''a'' [nd ''b'' []], nd ''a'' [nd ''^'' []]])
         (js ''a'')"
  by (simp add: parse_eval query_eval)

text \<open>
  C3, amended: \<open>isRecursive E n\<close> is true if and only if the first root node of \<open>E\<close> named
  \<open>n\<close> exists and has exactly one child, named \<open>^\<close>. The expression parsed from \<open>a.^\<close>
  is recursive at \<open>a\<close>, and the one parsed from \<open>a.b\<close> is not.
\<close>

theorem isRecursive_first_named:
  "(isRecursive E n \<longleftrightarrow>
      (case find (\<lambda>x. name x = n) (nodes E) of
         None \<Rightarrow> False
       | Some x \<Rightarrow> length (children x) = 1 \<and> name (children x ! 0) = js ''^''))
   \<and> (case parse_string ''a.^'' of Inl e \<Rightarrow> False | Inr E1 \<Rightarrow> isRecursive E1 (js ''a''))
   \<and> (case parse_string ''a.b'' of Inl e \<Rightarrow> False | Inr E2 \<Rightarrow> \<not> isRecursive E2 (js ''a''))"
proof (intro conjI)
  show "isRecursive E n \<longleftrightarrow>
      (case find (\<lambda>x. name x = n) (nodes E) of
         None \<Rightarrow> False
       | Some x \<Rightarrow> length (children x) = 1 \<and> name (children x ! 0) = js ''^'')"
    by (simp add: isRecursive_def isRecursive_loop_find)
  show "case parse_string ''a.^'' of Inl e \<Rightarrow> False | Inr E1 \<Rightarrow> isRecursive E1 (js ''a'')"
    by (simp add: parse_eval query_eval)
  show "case parse_string ''a.b'' of Inl e \<Rightarrow> False | Inr E2 \<Rightarrow> \<not> isRecursive E2 (js ''a'')"
    by (simp add: parse_eval query_eval)
qed

theorem isRecursive_first_named_witness:
  "isRecursive (MoronRelationExpression [nd ''b'' [], nd ''a'' [nd ''^'' []], nd ''a'' []]) (js ''a'')
   \<and> \<not> isRecursive (MoronRelationExpression [nd ''a'' [], nd ''a'' [nd ''^'' []]]) (js ''a'')
   \<and> \<not> isRecursive (MoronRelationExpression [nd ''a'' [nd ''^'' []]]) (js ''b'')"
  using isRecursive_first_named [of "MoronRelationExpression [nd ''b'' [], nd ''a'' [nd ''^'' []], nd ''a'' []]" "js ''a''"]
    isRecursive_first_named [of "MoronRelationExpression [nd ''a'' [], nd ''a'' [nd ''^'' []]]" "js ''a''"]
    isRecursive_first_named [of "MoronRelationExpression [nd ''a'' [nd ''^'' []]]" "js ''b''"]
  by (simp add: js_def)

text \<open>
  C4: when the argument \<open>B\<close> is all-recursive, \<open>A.isSubExpression(B)\<close> is
  \<open>A.isAllRecursive()\<close>.
\<close>

theorem isSubExpression_of_wildcard:
  "isAllRecursive B \<Longrightarrow> isSubExpression A (Instance B) = Inr (isAllRecursive A)"
  by (simp add: isSubExpression.simps)

theorem isSubExpression_of_wildcard_witness:
  "isAllRecursive (MoronRelationExpression [nd ''*'' []])
   \<and> isSubExpression (MoronRelationExpression [nd ''a'' []])
         (Instance (MoronRelationExpression [nd ''*'' []])) = Inr False
   \<and> isSubExpression (MoronRelationExpression [nd ''*'' []])
         (Instance (MoronRelationExpression [nd ''*'' []])) = Inr True"
proof -
  have h: "isAllRecursive (MoronRelationExpression [nd ''*'' []])"
    by (simp add: isAllRecursive_def)
  show ?thesis
    using h
      isSubExpression_of_wildcard [OF h, of "MoronRelationExpression [nd ''a'' []]"]
      isSubExpression_of_wildcard [OF h, of "MoronRelationExpression [nd ''*'' []]"]
    by (simp add: isAllRecursive_def js_def)
qed

lemma isSubExpression_no_throw:
  "(arg = Other JSNull \<or> (\<exists>B. arg = Instance B)) \<longrightarrow> (\<exists>b. isSubExpression A arg = Inr b)"
  "\<exists>b. isSubExpression_loop A B i = Inr b"
proof (induction A arg and A B i rule: isSubExpression_isSubExpression_loop.induct)
  case (1 this expr)
  show ?case
  proof
    assume a: "expr = Other JSNull \<or> (\<exists>B. expr = Instance B)"
    then obtain e where e: "(case expr of Instance e \<Rightarrow> Inr e | Other v \<Rightarrow> parse v) = Inr e"
      by (auto simp: parse_null)
    show "\<exists>b. isSubExpression this expr = Inr b"
    proof (cases "isAllRecursive e")
      case True
      then show ?thesis using e by (auto simp add: isSubExpression.simps)
    next
      case False
      from 1 [OF e False] obtain b where "isSubExpression_loop this e 0 = Inr b" by blast
      then show ?thesis using e False by (simp add: isSubExpression.simps)
    qed
  qed
next
  case (2 this expr i)
  show ?case
  proof (cases "i < length (nodes expr)")
    case False
    then show ?thesis by (auto simp add: isSubExpression_loop.simps)
  next
    case True
    define n where "n = name (nodes expr ! i)"
    show ?thesis
    proof (cases "isRecursive expr n \<and> (isAllRecursive this \<or> isRecursive this n)")
      case c: True
      then show ?thesis using True
        by (subst isSubExpression_loop.simps) (auto simp add: n_def Let_def)
    next
      case c: False
      show ?thesis
      proof (cases "relation this n")
        case None
        then show ?thesis using True c
          by (subst isSubExpression_loop.simps) (auto simp add: n_def Let_def)
      next
        case (Some own)
        define arg where "arg = (case relation expr n of None \<Rightarrow> Other JSNull | Some sub \<Rightarrow> Instance sub)"
        have argk: "arg = Other JSNull \<or> (\<exists>B. arg = Instance B)"
          by (auto simp: arg_def split: option.splits)
        from 2(1) [OF True n_def c refl refl Some] argk
        obtain b where b: "isSubExpression own arg = Inr b" by (auto simp: arg_def)
        show ?thesis
        proof (cases b)
          case False
          then show ?thesis using True c Some b
            by (subst isSubExpression_loop.simps) (auto simp add: n_def [symmetric] arg_def [symmetric] Let_def)
        next
          case bt: True
          from 2(2) [OF True n_def c refl refl Some] b bt
          obtain b' where "isSubExpression_loop this expr (i + 1) = Inr b'"
            by (auto simp: arg_def)
          then show ?thesis using True c Some b bt
            by (subst isSubExpression_loop.simps) (auto simp add: n_def [symmetric] arg_def [symmetric] Let_def)
        qed
      qed
    qed
  qed
qed

lemma isSubExpression_loop_step:
  assumes "i < length (nodes expr)"
  shows "isSubExpression_loop this expr i =
     (if isRecursive expr (name (nodes expr ! i)) \<and>
         (isAllRecursive this \<or> isRecursive this (name (nodes expr ! i)))
      then Inr True
      else case relation this (name (nodes expr ! i)) of
             None \<Rightarrow> Inr False
           | Some own \<Rightarrow>
               (case isSubExpression own
                       (case relation expr (name (nodes expr ! i)) of
                          None \<Rightarrow> Other JSNull | Some sub \<Rightarrow> Instance sub)
                of Inl err \<Rightarrow> Inl err
                 | Inr isSub \<Rightarrow>
                     if \<not> isSub then Inr False else isSubExpression_loop this expr (i + 1)))"
  using assms by (subst isSubExpression_loop.simps) (auto simp add: Let_def)

lemma relation_of_root:
  assumes "i < length (nodes E)" "\<not> isAllRecursive E" "\<not> isRecursive E (name (nodes E ! i))"
  shows "\<exists>sub. relation E (name (nodes E ! i)) = Some sub \<and> eweight sub < eweight E"
proof -
  have "name (nodes E ! i) \<in> name ` set (nodes E)" using assms(1) by simp
  then have "find (\<lambda>x. name x = name (nodes E ! i)) (nodes E) \<noteq> None"
    by (auto simp: find_None_iff)
  then obtain sub where s: "relation E (name (nodes E ! i)) = Some sub"
    using assms(2) by (auto simp: relation_def relation_loop_find split: option.splits)
  from relation_weight_less [OF s assms(2,3)] s show ?thesis by blast
qed

lemma isSubExpression_refl: "isSubExpression E (Instance E) = Inr True"
proof (induction "eweight E" arbitrary: E rule: less_induct)
  case less
  show ?case
  proof (cases "isAllRecursive E")
    case True
    then show ?thesis by (simp add: isSubExpression.simps)
  next
    case nall: False
    have loop: "isSubExpression_loop E E i = Inr True" for i
    proof (induction "length (nodes E) - i" arbitrary: i)
      case 0
      then show ?case by (simp add: isSubExpression_loop.simps)
    next
      case (Suc k)
      then have lt: "i < length (nodes E)" by simp
      have k: "k = length (nodes E) - (i + 1)" using Suc(2) by simp
      show ?case
      proof (cases "isRecursive E (name (nodes E ! i))")
        case True
        then show ?thesis by (simp add: isSubExpression_loop_step [OF lt])
      next
        case False
        from relation_of_root [OF lt nall False] obtain sub
          where s: "relation E (name (nodes E ! i)) = Some sub" and w: "eweight sub < eweight E"
          by blast
        have "isSubExpression sub (Instance sub) = Inr True" by (rule less [OF w])
        then show ?thesis using False s Suc(1) [OF k]
          by (simp add: isSubExpression_loop_step [OF lt])
      qed
    qed
    show ?thesis using nall loop [of 0] by (simp add: isSubExpression.simps)
  qed
qed

lemma isSubExpression_loop_reaches:
  assumes i: "i < length (nodes B)"
    and hit: "isRecursive B (name (nodes B ! i))"
        "isAllRecursive A \<or> isRecursive A (name (nodes B ! i))"
    and earlier: "\<forall>j<i. \<not> iteration_returns_false A B j"
    and j: "j \<le> i"
  shows "isSubExpression_loop A B j = Inr True"
  using j
proof (induction "i - j" arbitrary: j)
  case 0
  then have "j = i" by simp
  then show ?case using hit by (simp add: isSubExpression_loop_step [OF i])
next
  case (Suc k)
  then have ji: "j < i" and k: "k = i - (j + 1)" and le: "j + 1 \<le> i" by simp_all
  have lt: "j < length (nodes B)" using ji i by simp
  have next_true: "isSubExpression_loop A B (j + 1) = Inr True" by (rule Suc(1) [OF k le])
  have nf: "\<not> iteration_returns_false A B j" using earlier ji by blast
  show ?case
  proof (cases "isRecursive B (name (nodes B ! j)) \<and>
         (isAllRecursive A \<or> isRecursive A (name (nodes B ! j)))")
    case True
    then show ?thesis by (simp add: isSubExpression_loop_step [OF lt])
  next
    case c: False
    show ?thesis
    proof (cases "relation A (name (nodes B ! j))")
      case None
      then show ?thesis using nf c by (simp add: iteration_returns_false_def)
    next
      case (Some own)
      define arg where "arg = (case relation B (name (nodes B ! j)) of
          None \<Rightarrow> Other JSNull | Some sub \<Rightarrow> Instance sub)"
      have "arg = Other JSNull \<or> (\<exists>B. arg = Instance B)"
        by (auto simp: arg_def split: option.splits)
      with isSubExpression_no_throw(1) [of arg own] obtain b
        where b: "isSubExpression own arg = Inr b" by blast
      have "b" using nf c Some b by (auto simp: iteration_returns_false_def arg_def)
      then show ?thesis using c Some b next_true
        by (simp add: isSubExpression_loop_step [OF lt] arg_def [symmetric])
    qed
  qed
qed

text \<open>
  C1: once the scan of the root names of \<open>B\<close> reaches a name at which \<open>B\<close> is recursive
  and \<open>A\<close> is all-recursive or recursive too, \<open>A.isSubExpression(B)\<close> returns true there,
  whatever root names follow. The scan reaches index \<open>i\<close> when \<open>B\<close> is not all-recursive
  and no earlier pass of the loop has returned false.
\<close>

theorem isSubExpression_recursive_match:
  assumes "\<not> isAllRecursive B" "i < length (nodes B)"
    and "isRecursive B (name (nodes B ! i))"
    and "isAllRecursive A \<or> isRecursive A (name (nodes B ! i))"
    and "\<forall>j<i. \<not> iteration_returns_false A B j"
  shows "isSubExpression_loop A B i = Inr True \<and> isSubExpression A (Instance B) = Inr True"
  using assms(1) isSubExpression_loop_reaches [OF assms(2-5), of i]
    isSubExpression_loop_reaches [OF assms(2-5), of 0]
  by (simp add: isSubExpression.simps)

theorem isSubExpression_recursive_match_witness:
  "isSubExpression (MoronRelationExpression [nd ''c'' [], nd ''a'' [nd ''^'' []]])
     (Instance (MoronRelationExpression [nd ''c'' [], nd ''a'' [nd ''^'' []], nd ''b'' []])) = Inr True
   \<and> relation (MoronRelationExpression [nd ''c'' [], nd ''a'' [nd ''^'' []]]) (js ''b'') = None"
proof -
  let ?A = "MoronRelationExpression [nd ''c'' [], nd ''a'' [nd ''^'' []]]"
  let ?B = "MoronRelationExpression [nd ''c'' [], nd ''a'' [nd ''^'' []], nd ''b'' []]"
  have h1: "\<not> isAllRecursive ?B" by (simp add: query_eval)
  have h2: "1 < length (nodes ?B)" by simp
  have h3: "isRecursive ?B (name (nodes ?B ! 1))" by (simp add: query_eval)
  have h4: "isAllRecursive ?A \<or> isRecursive ?A (name (nodes ?B ! 1))" by (simp add: query_eval)
  have h5: "\<forall>j<1. \<not> iteration_returns_false ?A ?B j"
    by (simp add: iteration_returns_false_def query_eval)
  have "relation ?A (js ''b'') = None" by (simp add: query_eval)
  with isSubExpression_recursive_match [OF h1 h2 h3 h4 h5] show ?thesis by simp
qed

text \<open>
  C5: for every expression \<open>E\<close> that \<open>parse\<close> returns, \<open>E.isSubExpression(E)\<close> is true.
\<close>

theorem isSubExpression_reflexive:
  "parse v = Inr E \<Longrightarrow> isSubExpression E (Instance E) = Inr True"
  by (rule isSubExpression_refl)

theorem isSubExpression_reflexive_witness:
  "parse_string ''[a.^,*.b]''
     = Inr (MoronRelationExpression [nd ''a'' [nd ''^'' []], nd ''*'' [nd ''b'' []]])
   \<and> isSubExpression (MoronRelationExpression [nd ''a'' [nd ''^'' []], nd ''*'' [nd ''b'' []]])
        (Instance (MoronRelationExpression [nd ''a'' [nd ''^'' []], nd ''*'' [nd ''b'' []]]))
       = Inr True"
proof -
  have h: "parse_string ''[a.^,*.b]''
     = Inr (MoronRelationExpression [nd ''a'' [nd ''^'' []], nd ''*'' [nd ''b'' []]])"
    by (simp add: parse_eval)
  from isSubExpression_reflexive [OF h] h show ?thesis by simp
qed

section \<open>Properties of the parser\<close>

subsection \<open>Pushing onto referenced arrays\<close>

lemma length_push: "length ns \<le> length (push p n ns)"
  by (cases p) auto

lemma array_at_push: "valid_ref ns p \<Longrightarrow> array_at (push p n ns) p = array_at ns p @ [n]"
  by (induction p arbitrary: ns) auto

lemma valid_ref_push: "valid_ref ns p \<Longrightarrow> valid_ref (push p n ns) p"
  by (induction p arbitrary: ns) auto

lemma push_all_take:
  assumes "valid_ref ns p" "k \<le> length rel"
  shows "valid_ref (fold (\<lambda>i rn. push p (rel ! i) rn) [0..<k] ns) p \<and>
         array_at (fold (\<lambda>i rn. push p (rel ! i) rn) [0..<k] ns) p = array_at ns p @ take k rel \<and>
         length ns \<le> length (fold (\<lambda>i rn. push p (rel ! i) rn) [0..<k] ns)"
  using assms(2)
proof (induction k)
  case 0
  then show ?case using assms(1) by simp
next
  case (Suc k)
  then have k: "k < length rel" by simp
  with Suc have ih: "valid_ref (fold (\<lambda>i rn. push p (rel ! i) rn) [0..<k] ns) p"
    "array_at (fold (\<lambda>i rn. push p (rel ! i) rn) [0..<k] ns) p = array_at ns p @ take k rel"
    "length ns \<le> length (fold (\<lambda>i rn. push p (rel ! i) rn) [0..<k] ns)"
    by simp_all
  show ?case
    using ih k length_push [of "fold (\<lambda>i rn. push p (rel ! i) rn) [0..<k] ns" p "rel ! k"]
    by (simp add: valid_ref_push array_at_push take_Suc_conv_app_nth)
qed

lemma push_all:
  assumes "valid_ref ns p"
  shows "valid_ref (fold (\<lambda>i rn. push p (rel ! i) rn) [0..<length rel] ns) p"
    and "array_at (fold (\<lambda>i rn. push p (rel ! i) rn) [0..<length rel] ns) p = array_at ns p @ rel"
  using push_all_take [OF assms, of "length rel" rel] by simp_all

lemma length_push_all:
  "length ns \<le> length (fold (\<lambda>i rn. push p (rel ! i) rn) ks ns)"
proof (induction ks arbitrary: ns)
  case Nil
  show ?case by simp
next
  case (Cons k ks)
  have "length ns \<le> length (push p (rel ! k) ns)" by (rule length_push)
  also have "\<dots> \<le> length (fold (\<lambda>i rn. push p (rel ! i) rn) ks (push p (rel ! k) ns))"
    by (rule Cons)
  finally show ?case by simp
qed

lemma priv_parse_run:
  "priv_parse this_str str =
     (case run_callback (\<lambda>token st. priv_parseIterator this_str token (fst st) (snd st))
             (tokensOf str (js ''.'')) ([], []) of
        Inl e \<Rightarrow> Inl e
      | Inr st \<Rightarrow>
          if finalDepth str (js ''.'') \<noteq> 0 then priv_throwInvalidExpressionError this_str
          else Inr (snd st))"
  by (simp add: priv_parse.simps priv_forEachToken_as_run priv_throwInvalidExpressionError_def
      split: sum.splits)

lemma priv_parseArrayToken_run:
  "priv_parseArrayToken this_str arrayToken ref rootNodes =
     (case run_callback (\<lambda>token rootNodes'. priv_parseArrayIterator this_str token ref rootNodes')
             (tokensOf (stripArrayChars arrayToken) (js '','')) rootNodes of
        Inl e \<Rightarrow> Inl e
      | Inr rootNodes' \<Rightarrow>
          if finalDepth (stripArrayChars arrayToken) (js '','') \<noteq> 0
          then priv_throwInvalidExpressionError this_str
          else Inr (ref, rootNodes'))"
  by (simp add: priv_parseArrayToken.simps priv_forEachToken_as_run
      priv_throwInvalidExpressionError_def split: sum.splits)

lemma run_callback_invariant:
  assumes "run_callback cb ts st = Inr st'" "I st"
    and "\<And>t s s'. t \<in> set ts \<Longrightarrow> cb t s = Inr s' \<Longrightarrow> I s \<Longrightarrow> I s'"
  shows "I st'"
  using assms
proof (induction ts arbitrary: st)
  case Nil
  then show ?case by simp
next
  case (Cons t ts)
  from Cons.prems(1) obtain s1 where s1: "cb t st = Inr s1" "run_callback cb ts s1 = Inr st'"
    by (auto split: sum.splits)
  have "I s1" using Cons.prems(3) [OF _ s1(1) Cons.prems(2)] by simp
  from Cons.IH [OF s1(2) this] Cons.prems(3) show ?case by auto
qed

lemma separators: "js ''.'' \<noteq> js ''[''" "js ''.'' \<noteq> js '']''" "js '','' \<noteq> js ''[''" "js '','' \<noteq> js '']''"
  by (simp_all add: js_def)

lemma parse_grows:
  "\<forall>ns. priv_parse this_str str = Inr ns \<longrightarrow> ns \<noteq> []"
  "\<forall>ref' rn'. priv_parseIterator this_str token ref rn = Inr (ref', rn') \<longrightarrow>
     length rn \<le> length rn' \<and> (ref = [] \<longrightarrow> rn' \<noteq> [])"
  "\<forall>ref' rn'. priv_parseArrayToken this_str token ref rn = Inr (ref', rn') \<longrightarrow>
     length rn \<le> length rn' \<and> (ref = [] \<longrightarrow> rn' \<noteq> [])"
  "\<forall>rn'. priv_parseArrayIterator this_str token ref rn = Inr rn' \<longrightarrow>
     length rn \<le> length rn' \<and> (ref = [] \<longrightarrow> rn' \<noteq> [])"
proof (induction this_str str and this_str token ref rn and this_str token ref rn
    and this_str token ref rn
    rule: priv_parse_priv_parseIterator_priv_parseArrayToken_priv_parseArrayIterator.induct)
  case (1 this_str str)
  let ?cb = "\<lambda>token st. priv_parseIterator this_str token (fst st) (snd st)"
  show ?case
  proof (intro allI impI)
    fix ns assume a: "priv_parse this_str str = Inr ns"
    then obtain st where run: "run_callback ?cb (tokensOf str (js ''.'')) ([], []) = Inr st"
      and depth: "finalDepth str (js ''.'') = 0" and ns: "ns = snd st"
      by (auto simp: priv_parse_run priv_throwInvalidExpressionError_def split: sum.splits if_splits)
    from tokensOf_nonempty [OF separators(1,2) depth] obtain t ts
      where ts: "tokensOf str (js ''.'') = t # ts" by (cases "tokensOf str (js ''.'')") auto
    from run obtain s1 where s1: "?cb t ([], []) = Inr s1" and rest: "run_callback ?cb ts s1 = Inr st"
      by (auto simp: ts split: sum.splits)
    have len: "length u \<le> length str" if "u \<in> set (t # ts)" for u
      using that tokensOf_length [of u str "js ''.''"] by (simp add: ts)
    have "snd s1 \<noteq> []" using 1 [of t "([], [])"] len [of t] s1 by (cases s1) auto
    moreover have "snd s' \<noteq> []" if "u \<in> set ts" "?cb u s = Inr s'" "snd s \<noteq> []" for u s s'
      using 1 [of u s] len [of u] that by (cases s') auto
    ultimately have "snd st \<noteq> []"
      using run_callback_invariant [OF rest, of "\<lambda>s. snd s \<noteq> []"] by blast
    then show "ns \<noteq> []" by (simp add: ns)
  qed
next
  case (2 this_str token ref rn)
  show ?case
  proof (cases "isArrayToken token")
    case True
    with 2 show ?thesis by (auto simp add: priv_parseIterator.simps)
  next
    case False
    then show ?thesis
      using length_push [of rn ref "MoronRelationExpressionNode token []"]
      by (auto simp: priv_parseIterator.simps priv_parseToken_def Let_def
          priv_throwInvalidExpressionError_def split: if_splits)
  qed
next
  case (3 this_str arrayToken ref rn)
  let ?cb = "\<lambda>token rootNodes'. priv_parseArrayIterator this_str token ref rootNodes'"
  let ?s = "stripArrayChars arrayToken"
  show ?case
  proof (intro allI impI)
    fix ref' rn' assume a: "priv_parseArrayToken this_str arrayToken ref rn = Inr (ref', rn')"
    then have run: "run_callback ?cb (tokensOf ?s (js '','')) rn = Inr rn'"
      and depth: "finalDepth ?s (js '','') = 0"
      by (auto simp: priv_parseArrayToken_run priv_throwInvalidExpressionError_def
          split: sum.splits if_splits)
    from tokensOf_nonempty [OF separators(3,4) depth] obtain t ts
      where ts: "tokensOf ?s (js '','') = t # ts" by (cases "tokensOf ?s (js '','')") auto
    from run obtain s1 where s1: "?cb t rn = Inr s1" and rest: "run_callback ?cb ts s1 = Inr rn'"
      by (auto simp: ts split: sum.splits)
    have len: "length u \<le> length ?s" if "u \<in> set (t # ts)" for u
      using that tokensOf_length [of u ?s "js '',''"] by (simp add: ts)
    have first: "length rn \<le> length s1 \<and> (ref = [] \<longrightarrow> s1 \<noteq> [])"
      using 3 [of t rn] len [of t] s1 by auto
    have step: "length rn \<le> length s' \<and> (ref = [] \<longrightarrow> s' \<noteq> [])"
      if "u \<in> set ts" "?cb u s = Inr s'" "length rn \<le> length s \<and> (ref = [] \<longrightarrow> s \<noteq> [])" for u s s'
      using 3 [of u s] len [of u] that by auto
    show "length rn \<le> length rn' \<and> (ref = [] \<longrightarrow> rn' \<noteq> [])"
      using run_callback_invariant [OF rest,
          of "\<lambda>s. length rn \<le> length s \<and> (ref = [] \<longrightarrow> s \<noteq> [])"] first step
      by blast
  qed
next
  case (4 this_str token ref rn)
  show ?case
  proof (intro allI impI)
    fix rn' assume a: "priv_parseArrayIterator this_str token ref rn = Inr rn'"
    then obtain rel where rel: "priv_parse this_str token = Inr rel"
      and rn': "rn' = fold (\<lambda>i rn. push ref (rel ! i) rn) [0..<length rel] rn"
      by (auto simp: priv_parseArrayIterator.simps split: sum.splits)
    have "rel \<noteq> []" using 4 rel by simp
    then have "rn' \<noteq> []" if "ref = []" using that rn' push_all(2) [of rn "[]" rel] by simp
    then show "length rn \<le> length rn' \<and> (ref = [] \<longrightarrow> rn' \<noteq> [])"
      using length_push_all [of rn ref rel "[0..<length rel]"] by (simp add: rn')
  qed
qed

lemma priv_parseArrayIterator_appends:
  assumes "valid_ref rn ref" "priv_parseArrayIterator this_str token ref rn = Inr rn'"
  shows "\<exists>rel. priv_parse this_str token = Inr rel \<and> valid_ref rn' ref \<and>
           array_at rn' ref = array_at rn ref @ rel"
proof -
  from assms(2) obtain rel where rel: "priv_parse this_str token = Inr rel"
    and rn': "rn' = fold (\<lambda>i rn. push ref (rel ! i) rn) [0..<length rel] rn"
    by (auto simp: priv_parseArrayIterator.simps split: sum.splits)
  from push_all [OF assms(1), of rel] rel show ?thesis by (simp add: rn')
qed

lemma run_array_iterator:
  assumes "valid_ref rn ref"
    and "run_callback (\<lambda>token rootNodes'. priv_parseArrayIterator this_str token ref rootNodes') ts rn
           = Inr rn'"
  shows "\<exists>rels. map (priv_parse this_str) ts = map Inr rels \<and> valid_ref rn' ref \<and>
           array_at rn' ref = array_at rn ref @ concat rels"
  using assms
proof (induction ts arbitrary: rn)
  case Nil
  then show ?case by simp
next
  case (Cons t ts)
  from Cons.prems(2) obtain s1 where s1: "priv_parseArrayIterator this_str t ref rn = Inr s1"
    and rest: "run_callback (\<lambda>token rootNodes'. priv_parseArrayIterator this_str token ref rootNodes') ts s1
           = Inr rn'"
    by (auto split: sum.splits)
  from priv_parseArrayIterator_appends [OF Cons.prems(1) s1] obtain rel
    where rel: "priv_parse this_str t = Inr rel" "valid_ref s1 ref"
      "array_at s1 ref = array_at rn ref @ rel" by blast
  from Cons.IH [OF rel(2) rest] obtain rels
    where rels: "map (priv_parse this_str) ts = map Inr rels" "valid_ref rn' ref"
      "array_at rn' ref = array_at s1 ref @ concat rels" by blast
  have "map (priv_parse this_str) (t # ts) = map Inr (rel # rels)"
    using rel(1) rels(1) by simp
  moreover have "array_at rn' ref = array_at rn ref @ concat (rel # rels)"
    using rel(3) rels(3) by simp
  ultimately show ?case using rels(2) by blast
qed

lemma priv_parseArrayToken_appends:
  assumes "valid_ref rn ref" "priv_parseArrayToken this_str arrayToken ref rn = Inr (ref', rn')"
  shows "ref' = ref \<and> valid_ref rn' ref \<and>
     (\<exists>rels. map (priv_parse this_str) (tokensOf (stripArrayChars arrayToken) (js '','')) = map Inr rels \<and>
        array_at rn' ref = array_at rn ref @ concat rels)"
proof -
  from assms(2) have run: "run_callback (\<lambda>token rootNodes'. priv_parseArrayIterator this_str token ref rootNodes')
      (tokensOf (stripArrayChars arrayToken) (js '','')) rn = Inr rn'" and r: "ref' = ref"
    by (auto simp: priv_parseArrayToken_run priv_throwInvalidExpressionError_def
        split: sum.splits if_splits)
  from run_array_iterator [OF assms(1) run] r show ?thesis by blast
qed

lemmas token_eval = tokensOf_def finalDepth_def tokens_from_def

text \<open>
  The splitter on examples: separators inside brackets do not split, every token is trimmed,
  and a scan that ends inside a bracket hands out no last token.
\<close>

lemma tokensOf_examples:
  "tokensOf (js ''a. b .c'') (js ''.'') = [js ''a'', js ''b'', js ''c'']"
  "tokensOf (js ''a.[b.c,d].e'') (js ''.'') = [js ''a'', js ''[b.c,d]'', js ''e'']"
  "tokensOf (js ''b.c,d'') (js '','') = [js ''b.c'', js ''d'']"
  "tokensOf (js ''a..b'') (js ''.'') = [js ''a'', [], js ''b'']"
  "tokensOf (js ''a.[b'') (js ''.'') = [js ''a'']"
  "finalDepth (js ''a.[b'') (js ''.'') = 1"
  by (simp_all add: token_eval parse_eval)

subsection \<open>When the parser throws\<close>

lemma scanned_char:
  "i < length str \<Longrightarrow> scanned str sep i = [str ! i]"
  by (simp add: scanned_def charAt_def)

lemma scanned_end: "scanned str sep (length str) = sep"
  by (simp add: scanned_def)

lemma bracketExcess_drop:
  "i < length str \<Longrightarrow>
   bracketExcess (drop i str) =
     (if [str ! i] = js ''['' then 1 else if [str ! i] = js '']'' then - 1 else 0)
     + bracketExcess (drop (i + 1) str)"
  by (simp add: bracketExcess_def Cons_nth_drop_Suc [symmetric] js_def)

lemma tokens_from_depth:
  assumes sep: "sep \<noteq> js ''[''" "sep \<noteq> js '']''"
  shows "fst (tokens_from str sep i d p) = d + bracketExcess (drop i str)"
proof (induction i d p rule: loop_induct [where str = str and sep = sep])
  case (at_end i d p)
  then show ?case by (simp add: tokens_from_done bracketExcess_def)
next
  case (at_open i d p)
  then have lt: "i < length str" using sep scanned_end [of str sep] by (cases "i = length str") auto
  with at_open show ?case
    by (simp add: tokens_from_open bracketExcess_drop [OF lt] scanned_char)
next
  case (at_close i d p)
  then have lt: "i < length str" using sep scanned_end [of str sep] by (cases "i = length str") auto
  with at_close show ?case
    by (simp add: tokens_from_close bracketExcess_drop [OF lt] scanned_char)
next
  case (at_sep i p)
  have eq: "fst (tokens_from str sep i 0 p) = bracketExcess (drop (i + 1) str)"
    using at_sep(5) by (simp add: tokens_from_split [OF at_sep(1-4)])
  show ?case
  proof (cases "i = length str")
    case True
    then show ?thesis unfolding eq by (simp add: bracketExcess_def)
  next
    case False
    with at_sep have lt: "i < length str" by simp
    with at_sep(2,3) show ?thesis unfolding eq
      by (simp add: bracketExcess_drop [OF lt] scanned_char)
  qed
next
  case (at_other i d p)
  have eq: "fst (tokens_from str sep i d p) = d + bracketExcess (drop (i + 1) str)"
    using at_other(5) by (simp add: tokens_from_skip [OF at_other(1-4)])
  show ?case
  proof (cases "i = length str")
    case True
    then show ?thesis unfolding eq by (simp add: bracketExcess_def)
  next
    case False
    with at_other have lt: "i < length str" by simp
    with at_other(2,3) show ?thesis unfolding eq
      by (simp add: bracketExcess_drop [OF lt] scanned_char)
  qed
qed

lemma finalDepth_bracketExcess:
  "sep \<noteq> js ''['' \<Longrightarrow> sep \<noteq> js '']'' \<Longrightarrow> finalDepth str sep = bracketExcess str"
  using tokens_from_depth [of sep str 0 0 "- 1"] by (simp add: finalDepth_def)

lemma run_callback_isl:
  assumes "\<And>t s. t \<in> set ts \<Longrightarrow> isl (cb t s) \<longleftrightarrow> bad t"
  shows "isl (run_callback cb ts st) \<longleftrightarrow> list_ex bad ts"
  using assms
proof (induction ts arbitrary: st)
  case Nil
  show ?case by simp
next
  case (Cons t ts)
  have t: "isl (cb t st) \<longleftrightarrow> bad t" using Cons.prems by simp
  have rest: "isl (run_callback cb ts s) \<longleftrightarrow> list_ex bad ts" for s
    using Cons.IH Cons.prems by simp
  show ?case
  proof (cases "cb t st")
    case (Inl e)
    then show ?thesis using t by simp
  next
    case (Inr s1)
    then show ?thesis using t rest [of s1] by simp
  qed
qed

lemma run_callback_error_source:
  "run_callback cb ts st = Inl e \<Longrightarrow> \<exists>t \<in> set ts. \<exists>s. cb t s = Inl e"
proof (induction ts arbitrary: st)
  case Nil
  then show ?case by simp
next
  case (Cons t ts)
  show ?case
  proof (cases "cb t st")
    case (Inl e')
    then show ?thesis using Cons.prems by auto
  next
    case (Inr s1)
    then have "run_callback cb ts s1 = Inl e" using Cons.prems by simp
    from Cons.IH [OF this] show ?thesis by auto
  qed
qed

lemma isl_throw: "isl (priv_throwInvalidExpressionError this_str :: error + 'a)"
  by (simp add: priv_throwInvalidExpressionError_def)

lemma parse_fails_iff:
  "isl (priv_parse this_str str) \<longleftrightarrow> invalid_chain str"
  "isl (priv_parseIterator this_str token ref rn) \<longleftrightarrow>
     (if isArrayToken token then invalid_array (stripArrayChars token) else token = [])"
  "isl (priv_parseArrayToken this_str token ref rn) \<longleftrightarrow> invalid_array (stripArrayChars token)"
  "isl (priv_parseArrayIterator this_str token ref rn) \<longleftrightarrow> invalid_chain token"
proof (induction this_str str and this_str token ref rn and this_str token ref rn
    and this_str token ref rn
    rule: priv_parse_priv_parseIterator_priv_parseArrayToken_priv_parseArrayIterator.induct)
  case (1 this_str str)
  let ?cb = "\<lambda>token st. priv_parseIterator this_str token (fst st) (snd st)"
  let ?bad = "\<lambda>token. if isArrayToken token then invalid_array (stripArrayChars token) else token = []"
  have "isl (?cb t s) \<longleftrightarrow> ?bad t" if "t \<in> set (tokensOf str (js ''.''))" for t s
    using 1 [of t s] tokensOf_length [OF that] by simp
  then have run: "isl (run_callback ?cb (tokensOf str (js ''.'')) ([], [])) \<longleftrightarrow>
      list_ex ?bad (tokensOf str (js ''.''))"
    by (rule run_callback_isl)
  have "isl (priv_parse this_str str) \<longleftrightarrow>
      isl (run_callback ?cb (tokensOf str (js ''.'')) ([], [])) \<or> finalDepth str (js ''.'') \<noteq> 0"
    by (auto simp: priv_parse_run isl_throw split: sum.splits)
  then show ?case
    unfolding run finalDepth_bracketExcess [OF separators(1,2)]
    by (subst invalid_chain.simps) blast
next
  case (2 this_str token ref rn)
  show ?case
  proof (cases "isArrayToken token")
    case True
    with 2 show ?thesis by (simp add: priv_parseIterator.simps)
  next
    case False
    then show ?thesis
      by (simp add: priv_parseIterator.simps priv_parseToken_def isl_throw Let_def)
  qed
next
  case (3 this_str arrayToken ref rn)
  let ?cb = "\<lambda>token rootNodes'. priv_parseArrayIterator this_str token ref rootNodes'"
  let ?s = "stripArrayChars arrayToken"
  have "isl (?cb t s) \<longleftrightarrow> invalid_chain t" if "t \<in> set (tokensOf ?s (js '',''))" for t s
    using 3 [of t s] tokensOf_length [OF that] by simp
  then have run: "isl (run_callback ?cb (tokensOf ?s (js '','')) rn) \<longleftrightarrow>
      list_ex invalid_chain (tokensOf ?s (js '',''))"
    by (rule run_callback_isl)
  have "isl (priv_parseArrayToken this_str arrayToken ref rn) \<longleftrightarrow>
      isl (run_callback ?cb (tokensOf ?s (js '','')) rn) \<or> finalDepth ?s (js '','') \<noteq> 0"
    by (auto simp: priv_parseArrayToken_run isl_throw split: sum.splits)
  then show ?case
    unfolding run finalDepth_bracketExcess [OF separators(3,4)]
    by (subst invalid_array.simps) blast
next
  case (4 this_str token ref rn)
  then show ?case by (auto simp: priv_parseArrayIterator.simps split: sum.splits)
qed

lemma parse_error_message:
  "\<forall>e. priv_parse this_str str = Inl e \<longrightarrow>
     e = MoronValidationError (js ''invalid relation expression: '' @ this_str)"
  "\<forall>e. priv_parseIterator this_str token ref rn = Inl e \<longrightarrow>
     e = MoronValidationError (js ''invalid relation expression: '' @ this_str)"
  "\<forall>e. priv_parseArrayToken this_str token ref rn = Inl e \<longrightarrow>
     e = MoronValidationError (js ''invalid relation expression: '' @ this_str)"
  "\<forall>e. priv_parseArrayIterator this_str token ref rn = Inl e \<longrightarrow>
     e = MoronValidationError (js ''invalid relation expression: '' @ this_str)"
proof (induction this_str str and this_str token ref rn and this_str token ref rn
    and this_str token ref rn
    rule: priv_parse_priv_parseIterator_priv_parseArrayToken_priv_parseArrayIterator.induct)
  case (1 this_str str)
  let ?cb = "\<lambda>token st. priv_parseIterator this_str token (fst st) (snd st)"
  show ?case
  proof (intro allI impI)
    fix e assume a: "priv_parse this_str str = Inl e"
    show "e = MoronValidationError (js ''invalid relation expression: '' @ this_str)"
    proof (cases "run_callback ?cb (tokensOf str (js ''.'')) ([], [])")
      case (Inl e')
      then have "e' = e" using a by (simp add: priv_parse_run)
      with run_callback_error_source [OF Inl] obtain t s
        where "t \<in> set (tokensOf str (js ''.''))" "?cb t s = Inl e" by blast
      then show ?thesis using 1 [of t s] tokensOf_length [of t str "js ''.''"] by simp
    next
      case (Inr st)
      then show ?thesis using a
        by (auto simp: priv_parse_run priv_throwInvalidExpressionError_def split: if_splits)
    qed
  qed
next
  case (2 this_str token ref rn)
  show ?case
  proof (cases "isArrayToken token")
    case True
    with 2 show ?thesis by (simp add: priv_parseIterator.simps)
  next
    case False
    then show ?thesis
      by (auto simp: priv_parseIterator.simps priv_parseToken_def Let_def
          priv_throwInvalidExpressionError_def split: if_splits)
  qed
next
  case (3 this_str arrayToken ref rn)
  let ?cb = "\<lambda>token rootNodes'. priv_parseArrayIterator this_str token ref rootNodes'"
  let ?s = "stripArrayChars arrayToken"
  show ?case
  proof (intro allI impI)
    fix e assume a: "priv_parseArrayToken this_str arrayToken ref rn = Inl e"
    show "e = MoronValidationError (js ''invalid relation expression: '' @ this_str)"
    proof (cases "run_callback ?cb (tokensOf ?s (js '','')) rn")
      case (Inl e')
      then have "e' = e" using a by (simp add: priv_parseArrayToken_run)
      with run_callback_error_source [OF Inl] obtain t s
        where "t \<in> set (tokensOf ?s (js '',''))" "?cb t s = Inl e" by blast
      then show ?thesis using 3 [of t s] tokensOf_length [of t ?s "js '',''"] by simp
    next
      case (Inr st)
      then show ?thesis using a
        by (auto simp: priv_parseArrayToken_run priv_throwInvalidExpressionError_def split: if_splits)
    qed
  qed
next
  case (4 this_str token ref rn)
  then show ?case by (auto simp: priv_parseArrayIterator.simps split: sum.splits)
qed

subsection \<open>The claims about the parser\<close>

text \<open>
  C7, as the claim states it, fails: a String object that wraps the empty string is not a
  non-empty string, yet \<open>parse\<close> raises the validation error for it. \<open>_.isString\<close> holds
  of the object and \<open>!str\<close> is false of it, so its text is handed to \<open>_parse\<close>, whose one
  token is empty.
\<close>

theorem parse_empty_String_object_counterexample:
  "parse (JSStringObject []) = Inl (MoronValidationError (js ''invalid relation expression: ''))"
  by (simp add: parse_eval)

text \<open>
  C7, amended: for every input that is neither a non-empty string nor a String object,
  \<open>parse\<close> returns an expression without root nodes and raises no error. This covers the
  empty string, \<open>null\<close>, \<open>undefined\<close>, booleans, numbers and the objects that are not String
  objects.
\<close>

theorem parse_not_string_or_empty:
  "\<not> (\<exists>s. v = JSString s \<and> s \<noteq> []) \<Longrightarrow> \<not> (\<exists>s. v = JSStringObject s) \<Longrightarrow>
   parse v = Inr (MoronRelationExpression [])"
  by (cases v) (auto simp: parse_def)

theorem parse_not_string_or_empty_witness:
  "parse_string [] = Inr (MoronRelationExpression [])
   \<and> parse JSNull = Inr (MoronRelationExpression [])
   \<and> parse JSUndefined = Inr (MoronRelationExpression [])
   \<and> parse (JSBoolean False) = Inr (MoronRelationExpression [])
   \<and> parse (JSNumber 7) = Inr (MoronRelationExpression [])
   \<and> parse (JSObject 0) = Inr (MoronRelationExpression [])"
  using parse_not_string_or_empty [of "JSString (js [])"] parse_not_string_or_empty [of JSNull]
    parse_not_string_or_empty [of JSUndefined] parse_not_string_or_empty [of "JSBoolean False"]
    parse_not_string_or_empty [of "JSNumber 7"] parse_not_string_or_empty [of "JSObject 0"]
  by (simp add: js_def)

text \<open>
  C8: an array token adds, at the array the current reference denotes, the root nodes that
  parsing each of its sub-tokens yields, in order; the sub-tokens are those the splitter
  produces for the stripped token and the separator \<open>,\<close>, which splits at bracket depth
  zero only. In particular \<open>a.[b,c]\<close> parses to one root node \<open>a\<close> with the children
  \<open>b\<close> and \<open>c\<close>, in that order.
\<close>

theorem array_token_adds_siblings:
  assumes "valid_ref rootNodes ref"
    and "priv_parseArrayToken this_str arrayToken ref rootNodes = Inr (ref', rootNodes')"
  shows "(\<exists>rels.
            map (priv_parse this_str) (tokensOf (stripArrayChars arrayToken) (js '','')) = map Inr rels \<and>
            array_at rootNodes' ref = array_at rootNodes ref @ concat rels)
         \<and> tokensOf (js ''b.[c,d], e'') (js '','') = [js ''b.[c,d]'', js ''e'']
         \<and> parse_string ''a.[b,c]'' = Inr (MoronRelationExpression [nd ''a'' [nd ''b'' [], nd ''c'' []]])"
proof (intro conjI)
  show "\<exists>rels.
            map (priv_parse this_str) (tokensOf (stripArrayChars arrayToken) (js '','')) = map Inr rels \<and>
            array_at rootNodes' ref = array_at rootNodes ref @ concat rels"
    using priv_parseArrayToken_appends [OF assms] by blast
  show "tokensOf (js ''b.[c,d], e'') (js '','') = [js ''b.[c,d]'', js ''e'']"
    by (simp add: token_eval parse_eval)
  show "parse_string ''a.[b,c]'' = Inr (MoronRelationExpression [nd ''a'' [nd ''b'' [], nd ''c'' []]])"
    by (simp add: parse_eval)
qed

theorem array_token_adds_siblings_witness:
  "valid_ref [nd ''a'' []] [0]
   \<and> priv_parseArrayToken (js ''a.[b.c,d]'') (js ''[b.c,d]'') [0] [nd ''a'' []]
       = Inr ([0], [nd ''a'' [nd ''b'' [nd ''c'' []], nd ''d'' []]])
   \<and> (\<exists>rels. map (priv_parse (js ''a.[b.c,d]'')) (tokensOf (stripArrayChars (js ''[b.c,d]'')) (js '',''))
              = map Inr rels
          \<and> array_at [nd ''a'' [nd ''b'' [nd ''c'' []], nd ''d'' []]] [0]
              = array_at [nd ''a'' []] [0] @ concat rels)"
proof -
  have h1: "valid_ref [nd ''a'' []] [0]" by simp
  have h2: "priv_parseArrayToken (js ''a.[b.c,d]'') (js ''[b.c,d]'') [0] [nd ''a'' []]
       = Inr ([0], [nd ''a'' [nd ''b'' [nd ''c'' []], nd ''d'' []]])"
    by (simp add: parse_eval)
  from array_token_adds_siblings [OF h1 h2] h1 h2 show ?thesis by blast
qed

text \<open>
  C9: when \<open>parse\<close> returns an expression for a non-empty string, the expression has at
  least one root node.
\<close>

theorem parse_nonempty_string_has_root:
  "s \<noteq> [] \<Longrightarrow> parse (JSString s) = Inr E \<Longrightarrow> nodes E \<noteq> []"
  using parse_grows(1) [of s s] by (auto simp: parse_def split: sum.splits)

theorem parse_nonempty_string_has_root_witness:
  "js ''a.[b,c]'' \<noteq> []
   \<and> parse_string ''a.[b,c]'' = Inr (MoronRelationExpression [nd ''a'' [nd ''b'' [], nd ''c'' []]])
   \<and> nodes (MoronRelationExpression [nd ''a'' [nd ''b'' [], nd ''c'' []]]) \<noteq> []"
proof -
  have h1: "js ''a.[b,c]'' \<noteq> []" by (simp add: js_def)
  have h2: "parse_string ''a.[b,c]'' = Inr (MoronRelationExpression [nd ''a'' [nd ''b'' [], nd ''c'' []]])"
    by (simp add: parse_eval)
  from parse_nonempty_string_has_root [OF h1 h2] h1 h2 show ?thesis by blast
qed

text \<open>
  C10: an array token returns the reference it was given, so the segment after it is pushed
  onto the same array as the array token's branches: it becomes their sibling. In particular
  \<open>a.[b,c].d\<close> parses to one root node \<open>a\<close> with the children \<open>b\<close>, \<open>c\<close> and
  \<open>d\<close>.
\<close>

theorem segment_after_array_token_is_sibling:
  assumes "valid_ref rootNodes ref" "isArrayToken arrayToken"
    and "priv_parseIterator this_str arrayToken ref rootNodes = Inr (ref1, rootNodes1)"
    and "\<not> isArrayToken token"
    and "priv_parseIterator this_str token ref1 rootNodes1 = Inr (ref2, rootNodes2)"
  shows "ref1 = ref
         \<and> array_at rootNodes2 ref = array_at rootNodes1 ref @ [MoronRelationExpressionNode token []]
         \<and> parse_string ''a.[b,c].d''
             = Inr (MoronRelationExpression [nd ''a'' [nd ''b'' [], nd ''c'' [], nd ''d'' []]])"
proof -
  from assms(2,3) have a: "priv_parseArrayToken this_str arrayToken ref rootNodes = Inr (ref1, rootNodes1)"
    by (simp add: priv_parseIterator.simps)
  from priv_parseArrayToken_appends [OF assms(1) a]
  have r: "ref1 = ref" and v: "valid_ref rootNodes1 ref" by blast+
  from assms(4,5) have "rootNodes2 = push ref (MoronRelationExpressionNode token []) rootNodes1"
    by (auto simp: priv_parseIterator.simps priv_parseToken_def Let_def r
        priv_throwInvalidExpressionError_def split: if_splits)
  then have p: "array_at rootNodes2 ref = array_at rootNodes1 ref @ [MoronRelationExpressionNode token []]"
    using array_at_push [OF v] by simp
  have e: "parse_string ''a.[b,c].d''
             = Inr (MoronRelationExpression [nd ''a'' [nd ''b'' [], nd ''c'' [], nd ''d'' []]])"
    by (simp add: parse_eval)
  from r p e show ?thesis by blast
qed

theorem segment_after_array_token_is_sibling_witness:
  "valid_ref [nd ''a'' []] [0] \<and> isArrayToken (js ''[b,c]'')
   \<and> priv_parseIterator (js ''a.[b,c].d'') (js ''[b,c]'') [0] [nd ''a'' []]
       = Inr ([0], [nd ''a'' [nd ''b'' [], nd ''c'' []]])
   \<and> \<not> isArrayToken (js ''d'')
   \<and> priv_parseIterator (js ''a.[b,c].d'') (js ''d'') [0] [nd ''a'' [nd ''b'' [], nd ''c'' []]]
       = Inr ([0, 2], [nd ''a'' [nd ''b'' [], nd ''c'' [], nd ''d'' []]])
   \<and> array_at [nd ''a'' [nd ''b'' [], nd ''c'' [], nd ''d'' []]] [0]
       = array_at [nd ''a'' [nd ''b'' [], nd ''c'' []]] [0] @ [MoronRelationExpressionNode (js ''d'') []]"
proof -
  have h1: "valid_ref [nd ''a'' []] [0]" by simp
  have h2: "isArrayToken (js ''[b,c]'')" by (simp add: parse_eval)
  have h3: "priv_parseIterator (js ''a.[b,c].d'') (js ''[b,c]'') [0] [nd ''a'' []]
       = Inr ([0], [nd ''a'' [nd ''b'' [], nd ''c'' []]])"
    by (simp add: parse_eval)
  have h4: "\<not> isArrayToken (js ''d'')" by (simp add: parse_eval)
  have h5: "priv_parseIterator (js ''a.[b,c].d'') (js ''d'') [0] [nd ''a'' [nd ''b'' [], nd ''c'' []]]
       = Inr ([0, 2], [nd ''a'' [nd ''b'' [], nd ''c'' [], nd ''d'' []]])"
    by (simp add: parse_eval)
  from segment_after_array_token_is_sibling [OF h1 h2 h3 h4 h5] h1 h2 h3 h4 h5
  show ?thesis by blast
qed

text \<open>
  C6, as the claim states it, fails: the string \<open>][\<close> has unbalanced brackets, and
  \<open>parse\<close> raises nothing for it but returns one root node named \<open>][\<close>.
\<close>

theorem unbalanced_brackets_accepted_counterexample:
  "\<not> balanced_brackets (js '']['')
   \<and> parse_string '']['' = Inr (MoronRelationExpression [nd '']['' []])"
  by (simp add: balanced_brackets_def parse_eval)

text \<open>
  C6, amended: for a string \<open>s\<close>, \<open>parse\<close> raises an error if and only if \<open>s\<close> is not
  empty and is invalid in the sense of \<open>invalid_chain\<close>: in \<open>s\<close>, or in the stripped content
  of an array token reached from it, the numbers of \<open>[\<close> and \<open>]\<close> differ, or a plain token
  is empty after trimming. The error raised is the validation error whose message is
  \<open>invalid relation expression: \<close> followed by \<open>s\<close>; an error being a value of its own,
  no expression comes with it.
\<close>

theorem parse_raises_iff:
  "parse (JSString s) = Inl e \<longleftrightarrow>
     s \<noteq> [] \<and> invalid_chain s \<and>
     e = MoronValidationError (js ''invalid relation expression: '' @ s)"
proof (cases "s = []")
  case True
  then show ?thesis by (simp add: parse_def)
next
  case False
  have p: "parse (JSString s) = Inl e \<longleftrightarrow> priv_parse s s = Inl e"
    using False by (auto simp: parse_def split: sum.splits)
  show ?thesis
  proof
    assume a: "parse (JSString s) = Inl e"
    then have "priv_parse s s = Inl e" by (simp add: p)
    then have "isl (priv_parse s s)"
      and "e = MoronValidationError (js ''invalid relation expression: '' @ s)"
      using parse_error_message(1) [of s s] by simp_all
    then show "s \<noteq> [] \<and> invalid_chain s \<and>
        e = MoronValidationError (js ''invalid relation expression: '' @ s)"
      using False parse_fails_iff(1) [of s s] by simp
  next
    assume a: "s \<noteq> [] \<and> invalid_chain s \<and>
        e = MoronValidationError (js ''invalid relation expression: '' @ s)"
    then have "isl (priv_parse s s)" using parse_fails_iff(1) [of s s] by simp
    then obtain e' where e': "priv_parse s s = Inl e'" by (cases "priv_parse s s") auto
    with parse_error_message(1) [of s s] a have "e' = e" by simp
    with e' show "parse (JSString s) = Inl e" by (simp add: p)
  qed
qed

lemmas invalid_eval = invalid_chain.simps invalid_array.simps bracketExcess_def token_eval

theorem parse_raises_iff_witness:
  "parse_string ''a..b''
     = Inl (MoronValidationError (js ''invalid relation expression: a..b''))
   \<and> parse_string ''a.[b,c''
     = Inl (MoronValidationError (js ''invalid relation expression: a.[b,c''))
   \<and> parse_string ''a.[b, ]''
     = Inl (MoronValidationError (js ''invalid relation expression: a.[b, ]''))
   \<and> \<not> isl (parse_string ''a[..]b'')"
proof -
  have h1: "js ''a..b'' \<noteq> [] \<and> invalid_chain (js ''a..b'')"
    by (simp add: invalid_eval parse_eval)
  have h2: "js ''a.[b,c'' \<noteq> [] \<and> invalid_chain (js ''a.[b,c'')"
    by (simp add: invalid_eval parse_eval)
  have h3: "js ''a.[b, ]'' \<noteq> [] \<and> invalid_chain (js ''a.[b, ]'')"
    by (simp add: invalid_eval parse_eval)
  have h4: "\<not> invalid_chain (js ''a[..]b'')"
    by (simp add: invalid_eval parse_eval)
  have a: "js ''invalid relation expression: '' @ js s = js (''invalid relation expression: '' @ s)" for s
    by (simp add: js_def)
  have "\<not> isl (parse_string ''a[..]b'')"
    using parse_raises_iff [of "js ''a[..]b''"] h4 by (cases "parse_string ''a[..]b''") auto
  then show ?thesis
    using parse_raises_iff [of "js ''a..b''" "MoronValidationError (js ''invalid relation expression: a..b'')"]
      parse_raises_iff [of "js ''a.[b,c''" "MoronValidationError (js ''invalid relation expression: a.[b,c'')"]
      parse_raises_iff [of "js ''a.[b, ]''" "MoronValidationError (js ''invalid relation expression: a.[b, ]'')"]
      h1 h2 h3 a
    by simp
qed

end
